theory Spec2Isabelle
  imports Main "HOL-Library.AList" "HOL-Library.Char_ord" "HOL-Library.List_Lexorder"
begin

section \<open>Data model\<close>

text \<open>
  The Go type \<open>sets.String\<close> is a hash set of strings. It is represented by a list of its
  elements; the order of the list stands for the iteration order of the Go map, which the
  language leaves unspecified, so no theorem below depends on it. A loop over a set visits
  every element once (\<open>remdups\<close>); \<open>List()\<close> returns the elements sorted.
\<close>

type_synonym String_set = "string list"

definition sets_Has :: "String_set \<Rightarrow> string \<Rightarrow> bool" where
  "sets_Has s x = (x \<in> set s)"

definition sets_Insert :: "string \<Rightarrow> String_set \<Rightarrow> String_set" where
  "sets_Insert x s = List.insert x s"

definition sets_Union :: "String_set \<Rightarrow> String_set \<Rightarrow> String_set" where
  "sets_Union s1 s2 = fold sets_Insert s2 (fold sets_Insert s1 [])"

definition sets_HasAny :: "String_set \<Rightarrow> string list \<Rightarrow> bool" where
  "sets_HasAny s items = list_ex (sets_Has s) items"

definition sets_List :: "String_set \<Rightarrow> string list" where
  "sets_List s = sort (remdups s)"

text \<open>A \<open>ManagedClusterSet\<close> as far as the cache reads it: name, labels, resource version.\<close>

record ManagedClusterSet =
  Name :: string
  Labels :: "(string \<times> string) list"
  ResourceVersion :: string

record Subject =
  subject_Kind :: string
  subject_Name :: string

record ClusterRoleBinding =
  RoleRef_Name :: string
  Subjects :: "Subject list"

text \<open>
  Errors of the upstream stores: not found, any other failure of a read, and an error
  wrapped with a message by \<open>fmt.Errorf("...: %w", err)\<close>. \<open>errors.IsNotFound\<close> tells
  the first kind from the others and looks through the wrapping.
\<close>

datatype store_error = NotFound | UpstreamError string | Wrapped string store_error

fun IsNotFound :: "store_error \<Rightarrow> bool" where
  "IsNotFound NotFound = True"
| "IsNotFound (UpstreamError msg) = False"
| "IsNotFound (Wrapped msg err) = IsNotFound err"

text \<open>
  The resource store behind \<open>clusterSetLister\<close> (client-go) and \<open>client.Get\<close> /
  \<open>client.List\<close> (controller-runtime): the objects it holds, and the reads that currently
  fail with a transient error.
\<close>

record ResourceStore =
  items :: "ManagedClusterSet list"
  get_fault :: "string \<Rightarrow> string option"
  list_fault :: "string option"

definition store_Get :: "ResourceStore \<Rightarrow> string \<Rightarrow> store_error + ManagedClusterSet" where
  "store_Get st n =
     (case get_fault st n of
        Some msg \<Rightarrow> Inl (UpstreamError msg)
      | None \<Rightarrow> (case find (\<lambda>cs. Name cs = n) (items st) of
                   None \<Rightarrow> Inl NotFound
                 | Some cs \<Rightarrow> Inr cs))"

definition store_List :: "ResourceStore \<Rightarrow> store_error + ManagedClusterSet list" where
  "store_List st =
     (case list_fault st of
        Some msg \<Rightarrow> Inl (UpstreamError msg)
      | None \<Rightarrow> Inr (items st))"

text \<open>
  The role and binding store behind \<open>clusterRoleLister\<close> and
  \<open>clusterRoleBindingLister\<close>. The role type is left open: the caches read a role only
  through the injected function \<open>getResourceNamesFromClusterRole\<close>.
\<close>

record 'role RBACStore =
  bindings_List :: "store_error + ClusterRoleBinding list"
  roles_Get :: "string \<Rightarrow> store_error + 'role"

type_synonym 'role extractor = "'role \<Rightarrow> string \<Rightarrow> string \<Rightarrow> String_set \<times> bool"

section \<open>Permission index\<close>

text \<open>
  \<open>PermissionCache\<close> of \<open>OptimizedClusterSetCache\<close> and \<open>RBACPermissionIndex\<close> of
  \<open>ControllerRuntimeClusterSetCache\<close>: two Go maps from a subject name to a set of
  resource names, as association lists.
\<close>

record PermissionCache =
  userPermissions :: "(string \<times> String_set) list"
  groupPermissions :: "(string \<times> String_set) list"

definition empty_index :: PermissionCache where
  "empty_index = \<lparr>userPermissions = [], groupPermissions = []\<rparr>"

definition getAccessibleResourceNames ::
  "PermissionCache \<Rightarrow> string \<Rightarrow> string list \<Rightarrow> String_set" where
  "getAccessibleResourceNames pc user groups =
     (let accessibleNames = [];
          accessibleNames =
            (case map_of (userPermissions pc) user of
               Some userPerms \<Rightarrow> sets_Union accessibleNames userPerms
             | None \<Rightarrow> accessibleNames)
      in fold (\<lambda>group acc.
                 case map_of (groupPermissions pc) group of
                   Some groupPerms \<Rightarrow> sets_Union acc groupPerms
                 | None \<Rightarrow> acc)
              groups accessibleNames)"

text \<open>
  \<open>m[name] = m[name].Union(resourceNames)\<close>, after \<open>m[name]\<close> has been set to the empty
  set when it was missing.
\<close>

definition grant :: "string \<Rightarrow> String_set \<Rightarrow> (string \<times> String_set) list \<Rightarrow> (string \<times> String_set) list" where
  "grant n resourceNames m =
     (let m1 = (case map_of m n of None \<Rightarrow> AList.update n [] m | Some _ \<Rightarrow> m)
      in AList.update n (sets_Union (case map_of m1 n of None \<Rightarrow> [] | Some s \<Rightarrow> s) resourceNames) m1)"

definition process_subject :: "String_set \<Rightarrow> Subject \<Rightarrow> PermissionCache \<Rightarrow> PermissionCache" where
  "process_subject resourceNames s pc =
     (if subject_Kind s = ''User''
        then pc\<lparr>userPermissions := grant (subject_Name s) resourceNames (userPermissions pc)\<rparr>
      else if subject_Kind s = ''Group''
        then pc\<lparr>groupPermissions := grant (subject_Name s) resourceNames (groupPermissions pc)\<rparr>
      else pc)"

definition target_group :: string where
  "target_group = ''cluster.open-cluster-management.io''"

definition target_resource :: string where
  "target_resource = ''managedclustersets''"

text \<open>
  \<open>processClusterRoleBinding\<close>. The controller-runtime variant returns the error it met
  (wrapped, when listing the cluster sets failed); the client-go variant has the same
  effect on the index and returns nothing, so one function with the error as first
  component models both.
\<close>

definition processClusterRoleBinding ::
  "'role extractor \<Rightarrow> 'role RBACStore \<Rightarrow> ResourceStore \<Rightarrow> ClusterRoleBinding \<Rightarrow>
     PermissionCache \<Rightarrow> store_error option \<times> PermissionCache" where
  "processClusterRoleBinding getResourceNamesFromClusterRole rbac st binding pc =
     (case roles_Get rbac (RoleRef_Name binding) of
        Inl err \<Rightarrow> (Some err, pc)
      | Inr clusterRole \<Rightarrow>
          (case getResourceNamesFromClusterRole clusterRole target_group target_resource of
             (resourceNames, hasAll) \<Rightarrow>
               (case (if hasAll
                        then (case store_List st of
                                Inl err \<Rightarrow> Inl (Wrapped ''failed to list all ClusterSets'' err)
                              | Inr allClusterSets \<Rightarrow>
                                  Inr (fold (\<lambda>cs acc. sets_Insert (Name cs) acc) allClusterSets []))
                      else Inr resourceNames) of
                  Inl err \<Rightarrow> (Some err, pc)
                | Inr resourceNames \<Rightarrow>
                    if resourceNames = [] then (None, pc)
                    else (None, fold (process_subject resourceNames) (Subjects binding) pc))))"

text \<open>\<open>OptimizedClusterSetCache.rebuildPermissionCache\<close>.\<close>

definition rebuildPermissionCache ::
  "'role extractor \<Rightarrow> 'role RBACStore \<Rightarrow> ResourceStore \<Rightarrow> PermissionCache \<Rightarrow> PermissionCache" where
  "rebuildPermissionCache getResourceNamesFromClusterRole rbac st pc =
     (let pc = pc\<lparr>userPermissions := [], groupPermissions := []\<rparr>
      in case bindings_List rbac of
           Inl err \<Rightarrow> pc
         | Inr roleBindings \<Rightarrow>
             fold (\<lambda>binding pc.
                     snd (processClusterRoleBinding getResourceNamesFromClusterRole rbac st binding pc))
                  roleBindings pc)"

text \<open>
  \<open>ControllerRuntimeClusterSetCache.rebuildPermissionIndex\<close>: the same steps; a failed
  listing is returned to the caller, a failed binding is logged and skipped.
\<close>

definition rebuildPermissionIndex ::
  "'role extractor \<Rightarrow> 'role RBACStore \<Rightarrow> ResourceStore \<Rightarrow> PermissionCache \<Rightarrow>
     store_error option \<times> PermissionCache" where
  "rebuildPermissionIndex getResourceNamesFromClusterRole rbac st pc =
     (let pc = pc\<lparr>userPermissions := [], groupPermissions := []\<rparr>
      in case bindings_List rbac of
           Inl err \<Rightarrow> (Some (Wrapped ''failed to list ClusterRoleBindings'' err), pc)
         | Inr bindingList \<Rightarrow>
             (None,
              fold (\<lambda>binding pc.
                      snd (processClusterRoleBinding getResourceNamesFromClusterRole rbac st binding pc))
                   bindingList pc))"

section \<open>Permission-filtered list\<close>

text \<open>
  The loop of \<open>List\<close> over the accessible names: a name that is not found is skipped, any
  other read error ends the call with that error, an object whose labels the selector
  rejects is skipped.
\<close>

fun list_loop ::
  "ResourceStore \<Rightarrow> ((string \<times> string) list \<Rightarrow> bool) \<Rightarrow> string list \<Rightarrow>
     ManagedClusterSet list \<Rightarrow> store_error + ManagedClusterSet list" where
  "list_loop st selector [] acc = Inr acc"
| "list_loop st selector (name # rest) acc =
     (case store_Get st name of
        Inl err \<Rightarrow> (if IsNotFound err then list_loop st selector rest acc else Inl err)
      | Inr clusterSet \<Rightarrow>
          if \<not> selector (Labels clusterSet) then list_loop st selector rest acc
          else list_loop st selector rest (acc @ [clusterSet]))"

definition List ::
  "PermissionCache \<Rightarrow> ResourceStore \<Rightarrow> string \<Rightarrow> string list \<Rightarrow>
     ((string \<times> string) list \<Rightarrow> bool) \<Rightarrow> store_error + ManagedClusterSet list" where
  "List pc st user groups selector =
     (let accessibleNames = getAccessibleResourceNames pc user groups
      in list_loop st selector (remdups accessibleNames) [])"

definition labels_Everything :: "(string \<times> string) list \<Rightarrow> bool" where
  "labels_Everything ls = True"

definition ListObjects ::
  "PermissionCache \<Rightarrow> ResourceStore \<Rightarrow> string \<Rightarrow> string list \<Rightarrow>
     store_error + ManagedClusterSet list" where
  "ListObjects pc st user groups = List pc st user groups labels_Everything"

definition ConvertResource :: "ResourceStore \<Rightarrow> string \<Rightarrow> ManagedClusterSet" where
  "ConvertResource st name =
     (case store_Get st name of
        Inl err \<Rightarrow> \<lparr>Name = name, Labels = [], ResourceVersion = []\<rparr>
      | Inr clusterSet \<Rightarrow> clusterSet)"

text \<open>What one accessible name contributes to the result of \<open>List\<close>.\<close>

definition list_item ::
  "ResourceStore \<Rightarrow> ((string \<times> string) list \<Rightarrow> bool) \<Rightarrow> string \<Rightarrow> ManagedClusterSet list" where
  "list_item st sel n =
     (case store_Get st n of
        Inr cs \<Rightarrow> if sel (Labels cs) then [cs] else []
      | Inl e \<Rightarrow> [])"

section \<open>Permission-aware watch\<close>

datatype EventType = Added | Modified | Deleted | Error

text \<open>
  A \<open>runtime.Object\<close> carried by an event: a resource, or the \<open>metav1.Status\<close> of an
  error event (message and code).
\<close>

datatype Object = ClusterSetObject ManagedClusterSet | StatusObject string nat

record Event =
  event_Type :: EventType
  event_Object :: Object

text \<open>
  An enqueue on \<open>internalEvents\<close> is a \<open>select\<close> over three cases: the channel takes the
  event, the timer of \<open>eventTimeout\<close> fires, or the context is done. Which case wins is
  decided by the consumer, the clock and the scheduler, not by the watcher.
\<close>

datatype send_outcome = Sent | TimedOut | CtxDone

text \<open>
  The state of a \<open>ModernCacheWatcher\<close>. \<open>knownResources\<close> is the \<open>sync.Map\<close> from name to
  resource version, in the order \<open>Range\<close> visits it. Channels are the lists of the events
  they hold or have delivered, oldest first. Five fields are not fields of the Go struct:
  \<open>ctx_done\<close> (the context has been cancelled), \<open>resultChan_closes\<close> (how many times
  \<open>close(resultChan)\<close> has run; in Go a second close of a channel panics),
  \<open>live_loops\<close> (the \<open>run\<close> goroutines that have been
  spawned and have not returned), \<open>removeWatcher_calls\<close> (how many times the watcher has called
  \<open>authCache.RemoveWatcher\<close>) and \<open>enqueue_outcomes\<close> (the outcomes of its next enqueue attempts; when the list
  is used up every further enqueue is accepted).
\<close>

record ModernCacheWatcher =
  user_Name :: string
  user_Groups :: "string list"
  knownResources :: "(string \<times> string) list"
  internalEvents :: "Event list"
  resultChan :: "Event list"
  errors :: "string list"
  started :: bool
  initialResources :: "ManagedClusterSet list"
  ctx_done :: bool
  resultChan_closes :: nat
  live_loops :: nat
  removeWatcher_calls :: nat
  enqueue_outcomes :: "send_outcome list"

definition initializeResources ::
  "PermissionCache \<Rightarrow> ResourceStore \<Rightarrow> bool \<Rightarrow> ModernCacheWatcher \<Rightarrow> ModernCacheWatcher" where
  "initializeResources pc st includeAllExistingResources w =
     (case ListObjects pc st (user_Name w) (user_Groups w) of
        Inl err \<Rightarrow> w
      | Inr objs \<Rightarrow>
          (let w1 = w\<lparr>knownResources :=
                        fold (\<lambda>object kr. AList.update (Name object) (ResourceVersion object) kr)
                             objs (knownResources w)\<rparr>
           in if includeAllExistingResources then w1\<lparr>initialResources := objs\<rparr> else w1))"

definition NewModernCacheWatcher ::
  "string \<Rightarrow> string list \<Rightarrow> PermissionCache \<Rightarrow> ResourceStore \<Rightarrow> bool \<Rightarrow> send_outcome list \<Rightarrow>
     ModernCacheWatcher" where
  "NewModernCacheWatcher user groups pc st includeAllExistingResources outcomes =
     initializeResources pc st includeAllExistingResources
       \<lparr>user_Name = user, user_Groups = groups, knownResources = [], internalEvents = [],
        resultChan = [], errors = [], started = False, initialResources = [],
        ctx_done = False, resultChan_closes = 0, live_loops = 0, removeWatcher_calls = 0,
        enqueue_outcomes = outcomes\<rparr>"

definition next_outcome :: "ModernCacheWatcher \<Rightarrow> send_outcome" where
  "next_outcome w = (case enqueue_outcomes w of [] \<Rightarrow> Sent | out # _ \<Rightarrow> out)"

definition consume_outcome :: "ModernCacheWatcher \<Rightarrow> ModernCacheWatcher" where
  "consume_outcome w = w\<lparr>enqueue_outcomes := tl (enqueue_outcomes w)\<rparr>"

text \<open>
  \<open>handleEventTimeout\<close>: the watcher asks the cache to remove it and puts the error on
  the \<open>errors\<close> channel, which holds one error; with the channel full the error is only
  logged.
\<close>

definition handleEventTimeout :: "ModernCacheWatcher \<Rightarrow> ModernCacheWatcher" where
  "handleEventTimeout w =
     (let w1 = w\<lparr>removeWatcher_calls := Suc (removeWatcher_calls w)\<rparr>
      in if errors w1 = [] then w1\<lparr>errors := [''event notification timeout'']\<rparr> else w1)"

text \<open>
  The body of \<open>handleResourceDeletions\<close>, called by \<open>Range\<close> on every entry of
  \<open>knownResources\<close>; returning \<open>false\<close> ends the iteration.
\<close>

fun deletions_loop ::
  "ResourceStore \<Rightarrow> String_set \<Rightarrow> (string \<times> string) list \<Rightarrow> ModernCacheWatcher \<Rightarrow>
     ModernCacheWatcher" where
  "deletions_loop st accessibleNames [] w = w"
| "deletions_loop st accessibleNames ((name, rv) # rest) w =
     (if \<not> sets_Has accessibleNames name then
        (let w1 = w\<lparr>knownResources := AList.delete name (knownResources w)\<rparr>;
             deleteEvent = \<lparr>event_Type = Deleted,
                            event_Object = ClusterSetObject (ConvertResource st name)\<rparr>
         in case next_outcome w1 of
              Sent \<Rightarrow>
                deletions_loop st accessibleNames rest
                  (consume_outcome (w1\<lparr>internalEvents := internalEvents w1 @ [deleteEvent]\<rparr>))
            | TimedOut \<Rightarrow> handleEventTimeout (consume_outcome w1)
            | CtxDone \<Rightarrow> (consume_outcome w1)\<lparr>ctx_done := True\<rparr>)
      else deletions_loop st accessibleNames rest w)"

definition handleResourceDeletions ::
  "ResourceStore \<Rightarrow> String_set \<Rightarrow> ModernCacheWatcher \<Rightarrow> ModernCacheWatcher" where
  "handleResourceDeletions st accessibleNames w =
     deletions_loop st accessibleNames (knownResources w) w"

text \<open>
  The loop of \<open>handleResourceUpdates\<close> over \<open>accessibleNames.List()\<close>. \<open>Get\<close> of both
  caches returns a \<open>ManagedClusterSet\<close>, so \<open>meta.Accessor\<close> cannot fail on its result.
\<close>

fun updates_loop ::
  "ResourceStore \<Rightarrow> string list \<Rightarrow> ModernCacheWatcher \<Rightarrow> ModernCacheWatcher" where
  "updates_loop st [] w = w"
| "updates_loop st (name # rest) w =
     (case store_Get st name of
        Inl err \<Rightarrow> updates_loop st rest w
      | Inr object \<Rightarrow>
          (let currentResourceVersion = ResourceVersion object;
               loaded = map_of (knownResources w) name;
               eventType = (case loaded of None \<Rightarrow> Added | Some _ \<Rightarrow> Modified)
           in if loaded = Some currentResourceVersion then updates_loop st rest w
              else
                (let w1 = w\<lparr>knownResources :=
                              AList.update name currentResourceVersion (knownResources w)\<rparr>;
                     event = \<lparr>event_Type = eventType, event_Object = ClusterSetObject object\<rparr>
                 in case next_outcome w1 of
                      Sent \<Rightarrow>
                        updates_loop st rest
                          (consume_outcome (w1\<lparr>internalEvents := internalEvents w1 @ [event]\<rparr>))
                    | TimedOut \<Rightarrow> handleEventTimeout (consume_outcome w1)
                    | CtxDone \<Rightarrow> (consume_outcome w1)\<lparr>ctx_done := True\<rparr>)))"

definition handleResourceUpdates ::
  "ResourceStore \<Rightarrow> String_set \<Rightarrow> ModernCacheWatcher \<Rightarrow> ModernCacheWatcher" where
  "handleResourceUpdates st accessibleNames w = updates_loop st (sets_List accessibleNames) w"

definition hasAccess :: "String_set \<Rightarrow> String_set \<Rightarrow> ModernCacheWatcher \<Rightarrow> bool" where
  "hasAccess users groups w =
     (sets_Has users (user_Name w) \<or> sets_HasAny groups (user_Groups w))"

definition GroupMembershipChanged ::
  "ResourceStore \<Rightarrow> String_set \<Rightarrow> String_set \<Rightarrow> String_set \<Rightarrow> ModernCacheWatcher \<Rightarrow>
     ModernCacheWatcher" where
  "GroupMembershipChanged st names users groups w =
     (if \<not> hasAccess users groups w then w
      else handleResourceUpdates st names (handleResourceDeletions st names w))"

subsection \<open>Start, stop and the event loop\<close>

definition Start :: "ModernCacheWatcher \<Rightarrow> ModernCacheWatcher" where
  "Start w = (if started w then w else w\<lparr>started := True, live_loops := Suc (live_loops w)\<rparr>)"











text \<open>
  A watcher that is started once: \<open>started\<close> is set, the one event loop that \<open>Start\<close>
  has spawned has not returned, and the output stream has not been closed.
\<close>

definition started_once :: "ModernCacheWatcher \<Rightarrow> bool" where
  "started_once w = (started w \<and> live_loops w = 1 \<and> resultChan_closes w = 0)"

section \<open>Fan-out of permission changes\<close>

record ClusterSetCache =
  permissionCache :: PermissionCache
  watchers :: "ModernCacheWatcher list"

definition AddWatcher :: "ModernCacheWatcher \<Rightarrow> ClusterSetCache \<Rightarrow> ClusterSetCache" where
  "AddWatcher watcher c = c\<lparr>watchers := watchers c @ [watcher]\<rparr>"

text \<open>
  The three sets that the body of the loop in \<open>notifyWatchers\<close> builds from the index.
\<close>

definition notification :: "PermissionCache \<Rightarrow> String_set \<times> String_set \<times> String_set" where
  "notification pc =
     (let (names, users) =
            fold (\<lambda>(user, resources) (names, users).
                    (sets_Union names resources, sets_Insert user users))
                 (userPermissions pc) ([], []);
          (names, groups) =
            fold (\<lambda>(group, resources) (names, groups).
                    (sets_Union names resources, sets_Insert group groups))
                 (groupPermissions pc) (names, [])
      in (names, users, groups))"

text \<open>
  The loop of \<open>notifyWatchers\<close> over the registered watchers. It runs with the read lock
  of \<open>watcherLock\<close> held. A watcher whose enqueue times out calls \<open>RemoveWatcher\<close> of
  its \<open>authCache\<close>, the cache that it is registered with, which waits for the write
  lock of the same mutex: the call never returns, the loop stops there and the watchers
  behind get no call. The loop yields the calls
  \<open>watcher.GroupMembershipChanged(names, users, groups)\<close> that it has made, and the
  watchers after the calls, or \<open>None\<close> when it never returns.
\<close>

fun notify_loop ::
  "ResourceStore \<Rightarrow> PermissionCache \<Rightarrow> ModernCacheWatcher list \<Rightarrow>
     (ModernCacheWatcher \<times> String_set \<times> String_set \<times> String_set) list \<times>
     ModernCacheWatcher list option" where
  "notify_loop st pc [] = ([], Some [])"
| "notify_loop st pc (watcher # rest) =
     (case notification pc of
        (names, users, groups) \<Rightarrow>
          (let called = GroupMembershipChanged st names users groups watcher
           in if removeWatcher_calls called \<noteq> removeWatcher_calls watcher
                then ([(watcher, names, users, groups)], None)
              else (case notify_loop st pc rest of
                      (calls, ws) \<Rightarrow>
                        ((watcher, names, users, groups) # calls,
                         map_option (\<lambda>ws. called # ws) ws))))"

definition deliveries ::
  "ResourceStore \<Rightarrow> ClusterSetCache \<Rightarrow>
     (ModernCacheWatcher \<times> String_set \<times> String_set \<times> String_set) list" where
  "deliveries st c = fst (notify_loop st (permissionCache c) (watchers c))"

definition notifyWatchers :: "ResourceStore \<Rightarrow> ClusterSetCache \<Rightarrow> ClusterSetCache option" where
  "notifyWatchers st c =
     map_option (\<lambda>ws. c\<lparr>watchers := ws\<rparr>)
       (snd (notify_loop st (permissionCache c) (watchers c)))"

text \<open>
  The handlers \<open>onClusterRoleAdd\<close>, \<open>onClusterRoleUpdate\<close>, \<open>onClusterRoleDelete\<close>,
  \<open>onClusterRoleBindingUpdate\<close> and \<open>onClusterRoleBindingDelete\<close> of
  \<open>OptimizedClusterSetCache\<close> have one body: rebuild, then notify.
  \<open>ControllerRuntimeClusterSetCache\<close> has the same \<open>notifyWatchers\<close> and no caller of
  it.
\<close>

definition onClusterRoleBindingDelete ::
  "'role extractor \<Rightarrow> 'role RBACStore \<Rightarrow> ResourceStore \<Rightarrow> ClusterSetCache \<Rightarrow>
     ClusterSetCache option" where
  "onClusterRoleBindingDelete getResourceNamesFromClusterRole rbac st c =
     notifyWatchers st
       (c\<lparr>permissionCache :=
            rebuildPermissionCache getResourceNamesFromClusterRole rbac st (permissionCache c)\<rparr>)"


section \<open>Set objects\<close>

text \<open>
  A \<open>sets.String\<close> or \<open>sets.Set[string]\<close> is a Go map, hence a reference: whoever
  holds it writes to the one set object. Where a claim depends on which object is
  written, the sets live on a heap: the list of the allocated set objects, the address
  of an object its position. An address that a program holds is allocated.
\<close>

type_synonym heap = "String_set list"

section \<open>Resource-set mapping\<close>

text \<open>
  \<open>ClusterSetResourceMapper\<close>: the Go map \<open>setToResources\<close> from a cluster-set name to
  the set object of its resources. \<open>UpdateClusterSetResources\<close> stores the set object
  that the caller passes, and the other operations insert into and delete from the
  stored objects in place. The mutex is held for the whole of every operation, so each
  is one step on the mapper and the heap.
\<close>

record ClusterSetResourceMapper =
  resourceType :: string
  setToResources :: "(string \<times> nat) list"

definition NewClusterSetResourceMapper :: "string \<Rightarrow> ClusterSetResourceMapper" where
  "NewClusterSetResourceMapper rt = \<lparr>resourceType = rt, setToResources = []\<rparr>"


text \<open>
  \<open>if _, exists := ...; !exists \<lbrace> ... = sets.New() \<rbrace>\<close> followed by \<open>Insert\<close> on the
  stored object.
\<close>

definition insert_resource ::
  "string \<Rightarrow> string \<Rightarrow> (string \<times> nat) list \<Rightarrow> heap \<Rightarrow> (string \<times> nat) list \<times> heap" where
  "insert_resource resourceName clusterSetName m h =
     (case (case map_of m clusterSetName of
              None \<Rightarrow> (AList.update clusterSetName (length h) m, h @ [[]])
            | Some _ \<Rightarrow> (m, h)) of
        (m1, h1) \<Rightarrow>
          (case map_of m1 clusterSetName of
             None \<Rightarrow> (m1, h1)
           | Some resources \<Rightarrow>
               (m1, h1[resources := List.insert resourceName (h1 ! resources)])))"

definition AddResourceToClusterSet ::
  "string \<Rightarrow> string \<Rightarrow> ClusterSetResourceMapper \<Rightarrow> heap \<Rightarrow> ClusterSetResourceMapper \<times> heap" where
  "AddResourceToClusterSet resourceName clusterSetName m h =
     (if resourceName = [] \<or> clusterSetName = [] then (m, h)
      else (case insert_resource resourceName clusterSetName (setToResources m) h of
              (s, h') \<Rightarrow> (m\<lparr>setToResources := s\<rparr>, h')))"

text \<open>
  The loop \<open>for clusterSetName, resources := range m.setToResources\<close> shared by
  \<open>RemoveResourceFromAllClusterSets\<close> and \<open>MoveResourceToClusterSet\<close>, over the entries
  that the map has when the loop starts: the resource is deleted from every set object
  that has it when its entry is reached, and an entry whose object becomes empty is
  deleted from the map. \<open>keep\<close> is the cluster set that the loop of
  \<open>MoveResourceToClusterSet\<close> skips.
\<close>

fun remove_loop ::
  "string option \<Rightarrow> string \<Rightarrow> (string \<times> nat) list \<Rightarrow> (string \<times> nat) list \<Rightarrow> heap \<Rightarrow>
     (string \<times> nat) list \<times> heap" where
  "remove_loop keep resourceName [] m h = (m, h)"
| "remove_loop keep resourceName ((clusterSetName, resources) # rest) m h =
     (if keep = Some clusterSetName then remove_loop keep resourceName rest m h
      else if resourceName \<in> set (h ! resources)
        then (let h1 = h[resources := removeAll resourceName (h ! resources)]
              in if h1 ! resources = []
                   then remove_loop keep resourceName rest (AList.delete clusterSetName m) h1
                 else remove_loop keep resourceName rest m h1)
      else remove_loop keep resourceName rest m h)"

definition RemoveResourceFromAllClusterSets ::
  "string \<Rightarrow> ClusterSetResourceMapper \<Rightarrow> heap \<Rightarrow> ClusterSetResourceMapper \<times> heap" where
  "RemoveResourceFromAllClusterSets resourceName m h =
     (if resourceName = [] then (m, h)
      else (case remove_loop None resourceName (setToResources m) (setToResources m) h of
              (s, h') \<Rightarrow> (m\<lparr>setToResources := s\<rparr>, h')))"




text \<open>
  Every cluster set of the mapper has an allocated set object of its own: no set object
  is stored under two names.
\<close>

definition own_sets :: "ClusterSetResourceMapper \<times> heap \<Rightarrow> bool" where
  "own_sets mh =
     (case mh of
        (m, h) \<Rightarrow>
          list_all (\<lambda>(clusterSetName, resources). resources < length h) (setToResources m) \<and>
          distinct (map snd (setToResources m)))"


section \<open>The index with its sets on a heap\<close>

text \<open>
  The index maps a subject to the address of its set, and a caller that mutates a set it
  was handed mutates the index when the two share an address. \<open>NewString\<close> and
  \<open>Union\<close> allocate their result.
\<close>

record HeapIndex =
  heap_userPermissions :: "(string \<times> nat) list"
  heap_groupPermissions :: "(string \<times> nat) list"

definition heap_NewString :: "heap \<Rightarrow> nat \<times> heap" where
  "heap_NewString h = (length h, h @ [[]])"

definition heap_Union :: "nat \<Rightarrow> nat \<Rightarrow> heap \<Rightarrow> nat \<times> heap" where
  "heap_Union a b h = (length h, h @ [sets_Union (h ! a) (h ! b)])"

definition heap_getAccessibleResourceNames ::
  "HeapIndex \<Rightarrow> string \<Rightarrow> string list \<Rightarrow> heap \<Rightarrow> nat \<times> heap" where
  "heap_getAccessibleResourceNames hi user groups h =
     (let (accessibleNames, h) = heap_NewString h;
          (accessibleNames, h) =
            (case map_of (heap_userPermissions hi) user of
               Some userPerms \<Rightarrow> heap_Union accessibleNames userPerms h
             | None \<Rightarrow> (accessibleNames, h))
      in fold (\<lambda>group (acc, h).
                 case map_of (heap_groupPermissions hi) group of
                   Some groupPerms \<Rightarrow> heap_Union acc groupPerms h
                 | None \<Rightarrow> (acc, h))
              groups (accessibleNames, h))"

text \<open>The index that a heap index denotes, and the addresses it refers to.\<close>

definition index_of :: "heap \<Rightarrow> HeapIndex \<Rightarrow> PermissionCache" where
  "index_of h hi =
     \<lparr>userPermissions = map (\<lambda>(k, a). (k, h ! a)) (heap_userPermissions hi),
      groupPermissions = map (\<lambda>(k, a). (k, h ! a)) (heap_groupPermissions hi)\<rparr>"

definition index_addresses :: "HeapIndex \<Rightarrow> nat set" where
  "index_addresses hi = snd ` set (heap_userPermissions hi) \<union> snd ` set (heap_groupPermissions hi)"

definition allocated :: "heap \<Rightarrow> HeapIndex \<Rightarrow> bool" where
  "allocated h hi = list_all (\<lambda>(k, a). a < length h) (heap_userPermissions hi @ heap_groupPermissions hi)"

text \<open>The names that an index holds for a subject; a missing subject has none.\<close>

definition index_names :: "(string \<times> String_set) list \<Rightarrow> string \<Rightarrow> string set" where
  "index_names m k = (case map_of m k of None \<Rightarrow> {} | Some s \<Rightarrow> set s)"

section \<open>Observing a watch\<close>

text \<open>
  The events that a call has put on \<open>internalEvents\<close>, the resource that an event is
  about, and the events about one resource.
\<close>

definition new_events :: "ModernCacheWatcher \<Rightarrow> ModernCacheWatcher \<Rightarrow> Event list" where
  "new_events w w' = drop (length (internalEvents w)) (internalEvents w')"

definition event_name :: "Event \<Rightarrow> string option" where
  "event_name e =
     (case event_Object e of
        ClusterSetObject cs \<Rightarrow> Some (Name cs)
      | StatusObject msg code \<Rightarrow> None)"

definition events_for :: "string \<Rightarrow> Event list \<Rightarrow> Event list" where
  "events_for n evs = filter (\<lambda>e. event_name e = Some n) evs"

text \<open>Every enqueue attempt of the watcher that is still to come is accepted.\<close>

definition all_enqueued :: "ModernCacheWatcher \<Rightarrow> bool" where
  "all_enqueued w = list_all (\<lambda>out. out = Sent) (enqueue_outcomes w)"

definition deleted_event :: "ResourceStore \<Rightarrow> string \<Rightarrow> Event" where
  "deleted_event st n =
     \<lparr>event_Type = Deleted, event_Object = ClusterSetObject (ConvertResource st n)\<rparr>"

text \<open>
  The events that the addition and modification pass owes to one accessible name, given
  the resource versions known when the pass starts.
\<close>

definition update_events :: "ResourceStore \<Rightarrow> (string \<Rightarrow> string option) \<Rightarrow> string \<Rightarrow> Event list" where
  "update_events st known n =
     (case store_Get st n of
        Inl err \<Rightarrow> []
      | Inr object \<Rightarrow>
          (case known n of
             None \<Rightarrow> [\<lparr>event_Type = Added, event_Object = ClusterSetObject object\<rparr>]
           | Some rv \<Rightarrow>
               if rv = ResourceVersion object then []
               else [\<lparr>event_Type = Modified, event_Object = ClusterSetObject object\<rparr>]))"

section \<open>Example states\<close>

definition dev :: ManagedClusterSet where
  "dev = \<lparr>Name = ''dev'', Labels = [(''env'', ''dev'')], ResourceVersion = ''1''\<rparr>"

definition stg :: ManagedClusterSet where
  "stg = \<lparr>Name = ''stg'', Labels = [(''env'', ''stg'')], ResourceVersion = ''7''\<rparr>"

definition ex_store :: ResourceStore where
  "ex_store = \<lparr>items = [dev, stg], get_fault = (\<lambda>n. None), list_fault = None\<rparr>"

text \<open>The index after a rebuild that found \<open>alice\<close> bound to two names and \<open>ops\<close> to one.\<close>

definition ex_index :: PermissionCache where
  "ex_index = \<lparr>userPermissions = [(''alice'', [''dev'', ''ghost''])],
               groupPermissions = [(''ops'', [''stg''])]\<rparr>"

text \<open>A role is given by what the extractor returns for it.\<close>

definition ex_extractor :: "(String_set \<times> bool) extractor" where
  "ex_extractor role apiGroup resource = role"

definition ex_rbac_down :: "(String_set \<times> bool) RBACStore" where
  "ex_rbac_down = \<lparr>bindings_List = Inl (UpstreamError ''connection refused''),
                   roles_Get = (\<lambda>n. Inl NotFound)\<rparr>"

text \<open>The binding of \<open>alice\<close> has been deleted; only the binding of \<open>ops\<close> is left.\<close>

definition ex_rbac_revoked :: "(String_set \<times> bool) RBACStore" where
  "ex_rbac_revoked =
     \<lparr>bindings_List = Inr [\<lparr>RoleRef_Name = ''view-stg'',
                             Subjects = [\<lparr>subject_Kind = ''Group'', subject_Name = ''ops''\<rparr>]\<rparr>],
      roles_Get = (\<lambda>n. if n = ''view-stg'' then Inr ([''stg''], False) else Inl NotFound)\<rparr>"

definition ex_watcher :: ModernCacheWatcher where
  "ex_watcher = NewModernCacheWatcher ''alice'' [] ex_index ex_store False []"

definition ex_cache :: ClusterSetCache where
  "ex_cache = \<lparr>permissionCache = ex_index, watchers = [ex_watcher]\<rparr>"






definition ex_heap :: heap where
  "ex_heap = [[''dev'', ''ghost''], [''stg'']]"

definition ex_heap_index :: HeapIndex where
  "ex_heap_index = \<lparr>heap_userPermissions = [(''alice'', 0)], heap_groupPermissions = [(''ops'', 1)]\<rparr>"


section \<open>Sets and the index\<close>

lemma set_fold_sets_Insert: "set (fold sets_Insert xs acc) = set xs \<union> set acc"
  by (induction xs arbitrary: acc) (auto simp: sets_Insert_def)

lemma set_sets_Union: "set (sets_Union a b) = set a \<union> set b"
  by (auto simp: sets_Union_def set_fold_sets_Insert)

lemma set_group_fold:
  "set (fold (\<lambda>group acc. case map_of m group of Some groupPerms \<Rightarrow> sets_Union acc groupPerms | None \<Rightarrow> acc) groups acc0)
     = set acc0 \<union> (\<Union>g \<in> set groups. index_names m g)"
  by (induction groups arbitrary: acc0) (auto simp: set_sets_Union index_names_def split: option.splits)

lemma set_getAccessibleResourceNames:
  "set (getAccessibleResourceNames pc user groups)
     = index_names (userPermissions pc) user \<union> (\<Union>g \<in> set groups. index_names (groupPermissions pc) g)"
  by (auto simp: getAccessibleResourceNames_def set_group_fold set_sets_Union index_names_def split: option.splits)

lemma store_Get_Inr: "store_Get st n = Inr cs \<Longrightarrow> Name cs = n \<and> cs \<in> set (items st)"
  by (auto simp: store_Get_def find_Some_iff split: option.splits)

lemma Name_ConvertResource: "Name (ConvertResource st n) = n"
  by (auto simp: ConvertResource_def dest: store_Get_Inr split: sum.splits)

subsection \<open>The example states, evaluated\<close>

lemma ex_accessible: "getAccessibleResourceNames ex_index ''alice'' [''ops''] = [''stg'', ''dev'', ''ghost'']"
  by (simp add: getAccessibleResourceNames_def ex_index_def sets_Union_def sets_Insert_def)

lemma ex_List: "List ex_index ex_store ''alice'' [''ops''] labels_Everything = Inr [stg, dev]"
  by (simp add: List_def ex_accessible store_Get_def ex_store_def dev_def stg_def labels_Everything_def)

lemma ex_watcher_eq:
  "ex_watcher = \<lparr>user_Name = ''alice'', user_Groups = [], knownResources = [(''dev'', ''1'')],
      internalEvents = [], resultChan = [], errors = [], started = False, initialResources = [],
      ctx_done = False, resultChan_closes = 0, live_loops = 0, removeWatcher_calls = 0,
      enqueue_outcomes = []\<rparr>"
  by (simp add: ex_watcher_def NewModernCacheWatcher_def initializeResources_def ListObjects_def
        List_def getAccessibleResourceNames_def ex_index_def sets_Union_def sets_Insert_def
        store_Get_def ex_store_def dev_def stg_def labels_Everything_def)

lemma ex_hasAccess: "hasAccess [''alice''] [] ex_watcher"
  by (simp add: hasAccess_def sets_Has_def ex_watcher_eq)

lemma ex_GMC:
  "new_events ex_watcher (GroupMembershipChanged ex_store [''stg'', ''ghost''] [''alice''] [] ex_watcher)
     = [deleted_event ex_store ''dev'', \<lparr>event_Type = Added, event_Object = ClusterSetObject stg\<rparr>]"
  by (simp add: ex_watcher_eq GroupMembershipChanged_def hasAccess_def sets_Has_def
        handleResourceDeletions_def handleResourceUpdates_def sets_List_def next_outcome_def
        consume_outcome_def new_events_def deleted_event_def ConvertResource_def store_Get_def
        ex_store_def dev_def stg_def Let_def)

section \<open>A failed listing during a rebuild\<close>

text \<open>
  Both rebuilds replace the two maps by empty ones before they list the bindings, and
  return as soon as the listing fails.
\<close>

lemma rebuild_after_list_error:
  assumes "bindings_List rbac = Inl err"
  shows "rebuildPermissionCache ex rbac st pc = pc\<lparr>userPermissions := [], groupPermissions := []\<rparr>"
    and "rebuildPermissionIndex ex rbac st pc =
           (Some (Wrapped ''failed to list ClusterRoleBindings'' err),
            pc\<lparr>userPermissions := [], groupPermissions := []\<rparr>)"
  using assms by (simp_all add: rebuildPermissionCache_def rebuildPermissionIndex_def)

text \<open>
  Claim C1 says that a rebuild whose listing of the bindings fails leaves the user and
  group maps as they were before the rebuild. Evaluated at an index that holds
  \<open>dev\<close> and \<open>ghost\<close> for \<open>alice\<close> and a binding store whose listing fails, both
  rebuilds return the empty index: \<open>alice\<close> has lost every name.
\<close>

theorem rebuild_list_error_clears_index:
  "bindings_List ex_rbac_down = Inl (UpstreamError ''connection refused'') \<and>
   getAccessibleResourceNames ex_index ''alice'' [] = [''ghost'', ''dev''] \<and>
   rebuildPermissionCache ex_extractor ex_rbac_down ex_store ex_index = empty_index \<and>
   rebuildPermissionIndex ex_extractor ex_rbac_down ex_store ex_index =
     (Some (Wrapped ''failed to list ClusterRoleBindings'' (UpstreamError ''connection refused'')),
      empty_index) \<and>
   getAccessibleResourceNames
     (rebuildPermissionCache ex_extractor ex_rbac_down ex_store ex_index) ''alice'' [] = []"
  by (simp add: rebuildPermissionCache_def rebuildPermissionIndex_def ex_rbac_down_def ex_index_def
        empty_index_def getAccessibleResourceNames_def sets_Union_def sets_Insert_def)

section \<open>Permission-filtered list\<close>

lemma list_loop_cases:
  "case list_loop st sel ns acc of
     Inr result \<Rightarrow> (\<forall>n \<in> set ns. get_fault st n = None) \<and> result = acc @ concat (map (list_item st sel) ns)
   | Inl err \<Rightarrow> \<exists>n \<in> set ns. \<exists>msg. get_fault st n = Some msg \<and> err = UpstreamError msg"
proof (induction ns arbitrary: acc)
  case Nil then show ?case by simp
next
  case (Cons n ns)
  show ?case
  proof (cases "get_fault st n")
    case (Some msg)
    then show ?thesis by (simp add: store_Get_def)
  next
    case None
    show ?thesis
    proof (cases "store_Get st n")
      case (Inl e)
      with None have e: "e = NotFound" by (auto simp: store_Get_def split: option.splits)
      show ?thesis using Cons.IH[of acc] Inl e None
        by (auto simp: list_item_def split: sum.splits)
    next
      case (Inr cs)
      show ?thesis
      proof (cases "sel (Labels cs)")
        case True
        then show ?thesis using Cons.IH[of "acc @ [cs]"] Inr None
          by (auto simp: list_item_def split: sum.splits)
      next
        case False
        then show ?thesis using Cons.IH[of acc] Inr None
          by (auto simp: list_item_def split: sum.splits)
      qed
    qed
  qed
qed

lemma map_Name_list_items:
  "map Name (concat (map (list_item st sel) ns)) = filter (\<lambda>n. \<exists>cs. store_Get st n = Inr cs \<and> sel (Labels cs)) ns"
  by (induction ns) (auto simp: list_item_def dest: store_Get_Inr split: sum.splits)

lemma set_list_items:
  "set (concat (map (list_item st sel) ns)) = {cs. \<exists>n \<in> set ns. store_Get st n = Inr cs \<and> sel (Labels cs)}"
  by (auto simp: list_item_def split: sum.splits if_splits)

text \<open>
  Claim C4: \<open>List\<close> returns exactly the resources that the store holds under a name
  in the subject's accessible names and whose labels the selector accepts, each once;
  a name that is not found is dropped, and every returned resource bears an accessible
  name. The call returns a list unless the read of an accessible name fails with an
  error other than not-found, and then it returns that error.
\<close>

theorem List_exact:
  "case List pc st user groups selector of
     Inr result \<Rightarrow>
       (\<forall>n \<in> set (getAccessibleResourceNames pc user groups). get_fault st n = None) \<and>
       set result = {cs. \<exists>n \<in> set (getAccessibleResourceNames pc user groups).
                          store_Get st n = Inr cs \<and> selector (Labels cs)} \<and>
       distinct (map Name result) \<and>
       (\<forall>cs \<in> set result. Name cs \<in> set (getAccessibleResourceNames pc user groups))
   | Inl err \<Rightarrow>
       \<exists>n \<in> set (getAccessibleResourceNames pc user groups). \<exists>msg.
         get_fault st n = Some msg \<and> err = UpstreamError msg"
proof -
  let ?ns = "remdups (getAccessibleResourceNames pc user groups)"
  have c: "case list_loop st selector ?ns [] of
     Inr result \<Rightarrow> (\<forall>n \<in> set ?ns. get_fault st n = None) \<and> result = [] @ concat (map (list_item st selector) ?ns)
   | Inl err \<Rightarrow> \<exists>n \<in> set ?ns. \<exists>msg. get_fault st n = Some msg \<and> err = UpstreamError msg"
    by (rule list_loop_cases)
  show ?thesis
  proof (cases "list_loop st selector ?ns []")
    case (Inl err)
    with c show ?thesis by (simp add: List_def)
  next
    case (Inr result)
    with c have r: "result = concat (map (list_item st selector) ?ns)"
      and f: "\<forall>n \<in> set ?ns. get_fault st n = None" by simp_all
    have d: "distinct (map Name result)"
      unfolding r map_Name_list_items by simp
    have s: "set result = {cs. \<exists>n \<in> set ?ns. store_Get st n = Inr cs \<and> selector (Labels cs)}"
      unfolding r by (rule set_list_items)
    have m: "\<forall>cs \<in> set result. Name cs \<in> set ?ns"
      using s store_Get_Inr by blast
    show ?thesis using Inr f d s m by (simp add: List_def)
  qed
qed

theorem List_exact_witness:
  "List ex_index ex_store ''alice'' [''ops''] labels_Everything = Inr [stg, dev] \<and>
   getAccessibleResourceNames ex_index ''alice'' [''ops''] = [''stg'', ''dev'', ''ghost''] \<and>
   set [stg, dev] = {cs. \<exists>n \<in> set (getAccessibleResourceNames ex_index ''alice'' [''ops'']).
                          store_Get ex_store n = Inr cs \<and> labels_Everything (Labels cs)} \<and>
   store_Get ex_store ''ghost'' = Inl NotFound"
proof -
  have g: "store_Get ex_store ''ghost'' = Inl NotFound"
    by (simp add: store_Get_def ex_store_def dev_def stg_def)
  show ?thesis
    using List_exact[where pc=ex_index and st=ex_store and user="''alice''" and groups="[''ops'']"
        and selector=labels_Everything] ex_List ex_accessible g
    by simp
qed

section \<open>Lookup for a user and its groups\<close>

lemma heap_fold_groups:
  assumes "\<forall>g \<in> set groups. \<forall>b. map_of m g = Some b \<longrightarrow> b < length h0"
      and "a0 < length h" and "length h0 \<le> a0" and "take (length h0) h = h0"
  shows "case fold (\<lambda>group (acc, h). case map_of m group of
                       Some groupPerms \<Rightarrow> heap_Union acc groupPerms h
                     | None \<Rightarrow> (acc, h)) groups (a0, h) of
           (a, h') \<Rightarrow> length h0 \<le> a \<and> a < length h' \<and> take (length h0) h' = h0 \<and>
              h' ! a = fold (\<lambda>group acc. case map_of (map (\<lambda>(k, a). (k, h0 ! a)) m) group of
                                Some groupPerms \<Rightarrow> sets_Union acc groupPerms
                              | None \<Rightarrow> acc) groups (h ! a0)"
  using assms
proof (induction groups arbitrary: a0 h)
  case Nil
  then show ?case by simp
next
  case (Cons g groups)
  show ?case
  proof (cases "map_of m g")
    case None
    then have "map_of (map (\<lambda>(k, a). (k, h0 ! a)) m) g = None"
      by (induction m) auto
    with None Cons show ?thesis by simp
  next
    case (Some b)
    then have m': "map_of (map (\<lambda>(k, a). (k, h0 ! a)) m) g = Some (h0 ! b)"
      by (induction m) (auto split: if_splits)
    from Some Cons.prems have b: "b < length h0" by simp
    have hb: "h ! b = h0 ! b"
      using b Cons.prems(4) by (metis nth_take)
    have len: "length h0 \<le> length h" using Cons.prems(2,3) by simp
    have tk: "take (length h0) (h @ [sets_Union (h ! a0) (h ! b)]) = h0"
      using Cons.prems(4) len by simp
    have IH: "case fold (\<lambda>group (acc, h). case map_of m group of
                       Some groupPerms \<Rightarrow> heap_Union acc groupPerms h
                     | None \<Rightarrow> (acc, h)) groups (length h, h @ [sets_Union (h ! a0) (h ! b)]) of
           (a, h') \<Rightarrow> length h0 \<le> a \<and> a < length h' \<and> take (length h0) h' = h0 \<and>
              h' ! a = fold (\<lambda>group acc. case map_of (map (\<lambda>(k, a). (k, h0 ! a)) m) group of
                                Some groupPerms \<Rightarrow> sets_Union acc groupPerms
                              | None \<Rightarrow> acc) groups ((h @ [sets_Union (h ! a0) (h ! b)]) ! length h)"
      by (rule Cons.IH) (use Cons.prems len tk in auto)
    show ?thesis using IH Some m' hb by (simp add: heap_Union_def)
  qed
qed

lemma map_of_heap_map:
  "map_of (map (\<lambda>(k, a). (k, h ! a)) m) k = map_option (\<lambda>a. h ! a) (map_of m k)"
  by (induction m) auto

lemma heap_getAccessibleResourceNames_refines:
  assumes "allocated h hi"
  shows "case heap_getAccessibleResourceNames hi user groups h of
           (a, h') \<Rightarrow> length h \<le> a \<and> a < length h' \<and> take (length h) h' = h \<and>
                     h' ! a = getAccessibleResourceNames (index_of h hi) user groups"
proof -
  have gs: "\<forall>g \<in> set groups. \<forall>b. map_of (heap_groupPermissions hi) g = Some b \<longrightarrow> b < length h"
    using assms by (auto simp: allocated_def list_all_iff dest!: map_of_SomeD)
  have us: "\<And>b. map_of (heap_userPermissions hi) user = Some b \<Longrightarrow> b < length h"
    using assms by (auto simp: allocated_def list_all_iff dest!: map_of_SomeD)
  show ?thesis
  proof (cases "map_of (heap_userPermissions hi) user")
    case None
    have "case fold (\<lambda>group (acc, h). case map_of (heap_groupPermissions hi) group of
                       Some groupPerms \<Rightarrow> heap_Union acc groupPerms h
                     | None \<Rightarrow> (acc, h)) groups (length h, h @ [[]]) of
           (a, h') \<Rightarrow> length h \<le> a \<and> a < length h' \<and> take (length h) h' = h \<and>
              h' ! a = fold (\<lambda>group acc. case map_of (map (\<lambda>(k, a). (k, h ! a)) (heap_groupPermissions hi)) group of
                                Some groupPerms \<Rightarrow> sets_Union acc groupPerms
                              | None \<Rightarrow> acc) groups ((h @ [[]]) ! length h)"
      by (rule heap_fold_groups) (use gs in auto)
    then show ?thesis using None
      by (simp add: heap_getAccessibleResourceNames_def heap_NewString_def
            getAccessibleResourceNames_def index_of_def map_of_heap_map)
  next
    case (Some b)
    then have b: "b < length h" by (rule us)
    let ?h1 = "h @ [[]]"
    let ?h2 = "?h1 @ [sets_Union (?h1 ! length h) (?h1 ! b)]"
    have "case fold (\<lambda>group (acc, h). case map_of (heap_groupPermissions hi) group of
                       Some groupPerms \<Rightarrow> heap_Union acc groupPerms h
                     | None \<Rightarrow> (acc, h)) groups (length ?h1, ?h2) of
           (a, h') \<Rightarrow> length h \<le> a \<and> a < length h' \<and> take (length h) h' = h \<and>
              h' ! a = fold (\<lambda>group acc. case map_of (map (\<lambda>(k, a). (k, h ! a)) (heap_groupPermissions hi)) group of
                                Some groupPerms \<Rightarrow> sets_Union acc groupPerms
                              | None \<Rightarrow> acc) groups (?h2 ! length ?h1)"
      by (rule heap_fold_groups) (use gs in auto)
    then show ?thesis using Some b
      by (simp add: heap_getAccessibleResourceNames_def heap_NewString_def heap_Union_def
            getAccessibleResourceNames_def index_of_def map_of_heap_map nth_append)
  qed
qed

lemma index_of_frame:
  assumes "allocated h hi" and "take (length h) h' = h" and "length h \<le> a"
  shows "index_of (h'[a := s]) hi = index_of h hi"
proof -
  have "\<And>k b. (k, b) \<in> set (heap_userPermissions hi @ heap_groupPermissions hi) \<Longrightarrow> (h'[a := s]) ! b = h ! b"
  proof -
    fix k b assume "(k, b) \<in> set (heap_userPermissions hi @ heap_groupPermissions hi)"
    then have b: "b < length h" using assms(1) by (auto simp: allocated_def list_all_iff)
    then have "b \<noteq> a" using assms(3) by simp
    then have "(h'[a := s]) ! b = h' ! b" by simp
    also have "\<dots> = h ! b" using b assms(2) by (metis nth_take)
    finally show "(h'[a := s]) ! b = h ! b" .
  qed
  then show ?thesis by (auto simp: index_of_def)
qed

text \<open>
  Claim C5: the set that \<open>getAccessibleResourceNames\<close> returns holds the names of the
  user's entry and of the entry of every listed group, a missing entry contributing
  nothing, so that it is empty when no entry exists; it is a freshly allocated set at
  an address that the index does not refer to, so that storing anything at that
  address leaves the index as it was.
\<close>

theorem lookupFor_union_copy:
  assumes "allocated h hi"
  shows "case heap_getAccessibleResourceNames hi user groups h of
           (a, h') \<Rightarrow>
             set (h' ! a) = index_names (userPermissions (index_of h hi)) user
                            \<union> (\<Union>g \<in> set groups. index_names (groupPermissions (index_of h hi)) g) \<and>
             h' ! a = getAccessibleResourceNames (index_of h hi) user groups \<and>
             (map_of (heap_userPermissions hi) user = None \<and>
              (\<forall>g \<in> set groups. map_of (heap_groupPermissions hi) g = None) \<longrightarrow> h' ! a = []) \<and>
             a \<notin> index_addresses hi \<and> a < length h' \<and>
             index_of h' hi = index_of h hi \<and>
             (\<forall>s. index_of (h'[a := s]) hi = index_of h hi)"
proof -
  obtain a h' where r: "heap_getAccessibleResourceNames hi user groups h = (a, h')"
    by (cases "heap_getAccessibleResourceNames hi user groups h")
  have ref: "length h \<le> a \<and> a < length h' \<and> take (length h) h' = h \<and>
             h' ! a = getAccessibleResourceNames (index_of h hi) user groups"
    using heap_getAccessibleResourceNames_refines[OF assms, of user groups] r by simp
  have "\<forall>b \<in> index_addresses hi. b < length h"
    using assms by (fastforce simp: index_addresses_def allocated_def list_all_iff)
  then have fresh: "a \<notin> index_addresses hi"
    using ref by auto
  have frame: "\<forall>s. index_of (h'[a := s]) hi = index_of h hi"
    using index_of_frame[OF assms] ref by blast
  have same: "index_of h' hi = index_of h hi"
    using frame[rule_format, of "h' ! a"] by simp
  have empty: "map_of (heap_userPermissions hi) user = None \<and>
              (\<forall>g \<in> set groups. map_of (heap_groupPermissions hi) g = None) \<longrightarrow> h' ! a = []"
  proof
    assume e: "map_of (heap_userPermissions hi) user = None \<and>
              (\<forall>g \<in> set groups. map_of (heap_groupPermissions hi) g = None)"
    have "set (h' ! a) = {}"
      using ref e by (simp add: set_getAccessibleResourceNames index_names_def index_of_def map_of_heap_map)
    then show "h' ! a = []" by simp
  qed
  show ?thesis using r ref fresh frame same empty
    by (simp add: set_getAccessibleResourceNames)
qed

lemma ex_allocated: "allocated ex_heap ex_heap_index"
  by (simp add: allocated_def ex_heap_def ex_heap_index_def)

lemma ex_heap_lookup:
  "heap_getAccessibleResourceNames ex_heap_index ''alice'' [''ops''] ex_heap =
     (4, ex_heap @ [[], [''ghost'', ''dev''], [''stg'', ''dev'', ''ghost'']])"
  by (simp add: heap_getAccessibleResourceNames_def heap_NewString_def heap_Union_def
        ex_heap_def ex_heap_index_def sets_Union_def sets_Insert_def)

theorem lookupFor_union_copy_witness:
  "allocated ex_heap ex_heap_index \<and>
   heap_getAccessibleResourceNames ex_heap_index ''alice'' [''ops''] ex_heap =
     (4, ex_heap @ [[], [''ghost'', ''dev''], [''stg'', ''dev'', ''ghost'']]) \<and>
   4 \<notin> index_addresses ex_heap_index \<and>
   (\<forall>s. index_of ((ex_heap @ [[], [''ghost'', ''dev''], [''stg'', ''dev'', ''ghost'']])[4 := s]) ex_heap_index
        = index_of ex_heap ex_heap_index)"
  using lookupFor_union_copy[OF ex_allocated, of "''alice''" "[''ops'']"] ex_allocated ex_heap_lookup
  by simp

section \<open>A notification to a watch\<close>

lemma event_name_deleted_event: "event_name (deleted_event st n) = Some n"
  by (simp add: event_name_def deleted_event_def Name_ConvertResource)

lemma next_outcome_all_enqueued: "all_enqueued w \<Longrightarrow> next_outcome w = Sent"
  by (auto simp: all_enqueued_def next_outcome_def split: list.splits)

lemma all_enqueued_consume: "all_enqueued w \<Longrightarrow> all_enqueued (consume_outcome w)"
  by (cases "enqueue_outcomes w") (auto simp: all_enqueued_def consume_outcome_def)

text \<open>The removal pass, whatever the outcomes of its enqueues.\<close>

lemma deletions_loop_events:
  "\<exists>evs. internalEvents (deletions_loop st names kr w) = internalEvents w @ evs \<and>
         (\<forall>e \<in> set evs. \<exists>n \<in> fst ` set kr. n \<notin> set names \<and> e = deleted_event st n)"
proof (induction kr arbitrary: w)
  case Nil
  then show ?case by simp
next
  case (Cons p kr)
  obtain n rv where p: "p = (n, rv)" by (cases p)
  show ?case
  proof (cases "n \<in> set names")
    case True
    with Cons.IH[of w] p show ?thesis by (auto simp: sets_Has_def)
  next
    case False
    let ?w1 = "w\<lparr>knownResources := AList.delete n (knownResources w)\<rparr>"
    show ?thesis
    proof (cases "next_outcome ?w1")
      case Sent
      let ?w2 = "consume_outcome (?w1\<lparr>internalEvents := internalEvents ?w1 @ [deleted_event st n]\<rparr>)"
      from Cons.IH[of ?w2] obtain evs where
        evs: "internalEvents (deletions_loop st names kr ?w2) = internalEvents ?w2 @ evs"
             "\<forall>e \<in> set evs. \<exists>n \<in> fst ` set kr. n \<notin> set names \<and> e = deleted_event st n"
        by blast
      have "internalEvents (deletions_loop st names (p # kr) w) = internalEvents w @ (deleted_event st n # evs)"
        using evs(1) False Sent p
        by (simp add: sets_Has_def Let_def deleted_event_def consume_outcome_def)
      moreover have "\<forall>e \<in> set (deleted_event st n # evs). \<exists>m \<in> fst ` set (p # kr). m \<notin> set names \<and> e = deleted_event st m"
        using evs(2) False p by auto
      ultimately show ?thesis by blast
    next
      case TimedOut
      then show ?thesis using False p
        by (simp add: sets_Has_def Let_def handleEventTimeout_def consume_outcome_def)
    next
      case CtxDone
      then show ?thesis using False p
        by (simp add: sets_Has_def Let_def consume_outcome_def)
    qed
  qed
qed

text \<open>The addition and modification pass, whatever the outcomes of its enqueues.\<close>

lemma updates_loop_events:
  "\<exists>evs. internalEvents (updates_loop st ns w) = internalEvents w @ evs \<and>
         (\<forall>e \<in> set evs. event_Type e \<noteq> Deleted)"
proof (induction ns arbitrary: w)
  case Nil
  then show ?case by simp
next
  case (Cons n ns)
  show ?case
  proof (cases "store_Get st n")
    case (Inl err)
    with Cons.IH[of w] show ?thesis by simp
  next
    case (Inr obj)
    show ?thesis
    proof (cases "map_of (knownResources w) n = Some (ResourceVersion obj)")
      case True
      with Cons.IH[of w] Inr show ?thesis by (simp add: Let_def)
    next
      case False
      let ?ty = "case map_of (knownResources w) n of None \<Rightarrow> Added | Some x \<Rightarrow> Modified"
      let ?ev = "\<lparr>event_Type = ?ty, event_Object = ClusterSetObject obj\<rparr>"
      let ?w1 = "w\<lparr>knownResources := AList.update n (ResourceVersion obj) (knownResources w)\<rparr>"
      have ty: "event_Type ?ev \<noteq> Deleted" by (simp split: option.splits)
      show ?thesis
      proof (cases "next_outcome ?w1")
        case Sent
        let ?w2 = "consume_outcome (?w1\<lparr>internalEvents := internalEvents ?w1 @ [?ev]\<rparr>)"
        from Cons.IH[of ?w2] obtain evs where
          evs: "internalEvents (updates_loop st ns ?w2) = internalEvents ?w2 @ evs"
               "\<forall>e \<in> set evs. event_Type e \<noteq> Deleted"
          by blast
        have "internalEvents (updates_loop st (n # ns) w) = internalEvents w @ (?ev # evs)"
          using evs(1) False Sent Inr by (simp add: Let_def consume_outcome_def)
        moreover have "\<forall>e \<in> set (?ev # evs). event_Type e \<noteq> Deleted"
          using evs(2) ty by simp
        ultimately show ?thesis by blast
      next
        case TimedOut
        then show ?thesis using False Inr
          by (simp add: Let_def handleEventTimeout_def consume_outcome_def)
      next
        case CtxDone
        then show ?thesis using False Inr
          by (simp add: Let_def consume_outcome_def)
      qed
    qed
  qed
qed

lemma GroupMembershipChanged_appends:
  "internalEvents (GroupMembershipChanged st names users groups w) =
     internalEvents w @ new_events w (GroupMembershipChanged st names users groups w)"
proof (cases "hasAccess users groups w")
  case False
  then show ?thesis by (simp add: GroupMembershipChanged_def new_events_def)
next
  case True
  let ?w1 = "handleResourceDeletions st names w"
  obtain ds where ds: "internalEvents ?w1 = internalEvents w @ ds"
    using deletions_loop_events[of st names "knownResources w" w]
    by (auto simp: handleResourceDeletions_def)
  obtain us where us: "internalEvents (handleResourceUpdates st names ?w1) = internalEvents ?w1 @ us"
    using updates_loop_events[of st "sets_List names" ?w1]
    by (auto simp: handleResourceUpdates_def)
  show ?thesis using True ds us by (simp add: GroupMembershipChanged_def new_events_def)
qed

text \<open>
  Claim C6: a watch whose user is not among the users of a notification and none of
  whose groups is among its groups ignores the notification: its state, with the known
  resources and the event queue, is unchanged.
\<close>

theorem GroupMembershipChanged_without_access:
  assumes "user_Name w \<notin> set users" and "set (user_Groups w) \<inter> set groups = {}"
  shows "GroupMembershipChanged st names users groups w = w \<and>
         new_events w (GroupMembershipChanged st names users groups w) = [] \<and>
         knownResources (GroupMembershipChanged st names users groups w) = knownResources w"
proof -
  have "\<not> hasAccess users groups w"
    using assms by (auto simp: hasAccess_def sets_Has_def sets_HasAny_def list_ex_iff)
  then have "GroupMembershipChanged st names users groups w = w"
    by (simp add: GroupMembershipChanged_def)
  then show ?thesis by (simp add: new_events_def)
qed

theorem GroupMembershipChanged_without_access_witness:
  "user_Name ex_watcher \<notin> set [''bob''] \<and> set (user_Groups ex_watcher) \<inter> set [''ops''] = {} \<and>
   GroupMembershipChanged ex_store [''stg''] [''bob''] [''ops''] ex_watcher = ex_watcher \<and>
   knownResources (GroupMembershipChanged ex_store [''stg''] [''bob''] [''ops''] ex_watcher) = [(''dev'', ''1'')]"
proof -
  have a: "user_Name ex_watcher \<notin> set [''bob'']" by (simp add: ex_watcher_eq)
  have b: "set (user_Groups ex_watcher) \<inter> set [''ops''] = {}" by (simp add: ex_watcher_eq)
  have k: "knownResources ex_watcher = [(''dev'', ''1'')]" by (simp add: ex_watcher_eq)
  show ?thesis
    using GroupMembershipChanged_without_access[OF a b, of ex_store "[''stg'']"] a b k by simp
qed

text \<open>
  Claim C8: \<open>ConvertResource\<close> always returns a cluster set with the requested name,
  and a placeholder that has only that name when the store has no such resource; every
  \<open>Deleted\<close> event that a notification puts on the queue carries the object that
  \<open>ConvertResource\<close> returns for a previously known name that has left the visible
  names.
\<close>

theorem Deleted_event_object:
  "Name (ConvertResource st name) = name \<and>
   ((\<forall>cs. store_Get st name \<noteq> Inr cs) \<longrightarrow>
      ConvertResource st name = \<lparr>Name = name, Labels = [], ResourceVersion = []\<rparr>) \<and>
   (\<forall>e \<in> set (new_events w (GroupMembershipChanged st names users groups w)).
      event_Type e = Deleted \<longrightarrow>
        (\<exists>n \<in> fst ` set (knownResources w).
           n \<notin> set names \<and> event_Object e = ClusterSetObject (ConvertResource st n) \<and>
           event_name e = Some n))"
proof -
  have a: "Name (ConvertResource st name) = name" by (rule Name_ConvertResource)
  have b: "(\<forall>cs. store_Get st name \<noteq> Inr cs) \<longrightarrow>
      ConvertResource st name = \<lparr>Name = name, Labels = [], ResourceVersion = []\<rparr>"
    by (auto simp: ConvertResource_def split: sum.splits)
  have c: "\<forall>e \<in> set (new_events w (GroupMembershipChanged st names users groups w)).
      event_Type e = Deleted \<longrightarrow>
        (\<exists>n \<in> fst ` set (knownResources w).
           n \<notin> set names \<and> event_Object e = ClusterSetObject (ConvertResource st n) \<and>
           event_name e = Some n)"
  proof (cases "hasAccess users groups w")
    case False
    then show ?thesis by (simp add: GroupMembershipChanged_def new_events_def)
  next
    case True
    let ?w1 = "handleResourceDeletions st names w"
    obtain ds where ds: "internalEvents ?w1 = internalEvents w @ ds"
      "\<forall>e \<in> set ds. \<exists>n \<in> fst ` set (knownResources w). n \<notin> set names \<and> e = deleted_event st n"
      using deletions_loop_events[of st names "knownResources w" w]
      by (auto simp: handleResourceDeletions_def)
    obtain us where us: "internalEvents (handleResourceUpdates st names ?w1) = internalEvents ?w1 @ us"
      "\<forall>e \<in> set us. event_Type e \<noteq> Deleted"
      using updates_loop_events[of st "sets_List names" ?w1]
      by (auto simp: handleResourceUpdates_def)
    have ne: "new_events w (GroupMembershipChanged st names users groups w) = ds @ us"
      using True ds(1) us(1) by (simp add: GroupMembershipChanged_def new_events_def)
    show ?thesis
    proof (intro ballI impI)
      fix e assume e: "e \<in> set (new_events w (GroupMembershipChanged st names users groups w))"
        and d: "event_Type e = Deleted"
      from e ne us(2) d have "e \<in> set ds" by auto
      with ds(2) obtain n where n: "n \<in> fst ` set (knownResources w)" "n \<notin> set names" "e = deleted_event st n"
        by blast
      have "event_Object e = ClusterSetObject (ConvertResource st n)" "event_name e = Some n"
        using n(3) by (simp_all add: event_name_deleted_event) (simp add: deleted_event_def)
      with n(1,2) show "\<exists>n \<in> fst ` set (knownResources w).
           n \<notin> set names \<and> event_Object e = ClusterSetObject (ConvertResource st n) \<and>
           event_name e = Some n"
        by blast
    qed
  qed
  show ?thesis using a b c by blast
qed

theorem Deleted_event_object_witness:
  "deleted_event ex_store ''dev''
     \<in> set (new_events ex_watcher
              (GroupMembershipChanged ex_store [''stg'', ''ghost''] [''alice''] [] ex_watcher)) \<and>
   event_Type (deleted_event ex_store ''dev'') = Deleted \<and>
   event_name (deleted_event ex_store ''dev'') = Some ''dev'' \<and>
   (\<forall>cs. store_Get ex_store ''ghost'' \<noteq> Inr cs) \<and>
   ConvertResource ex_store ''ghost'' = \<lparr>Name = ''ghost'', Labels = [], ResourceVersion = []\<rparr>"
proof -
  have m: "deleted_event ex_store ''dev''
     \<in> set (new_events ex_watcher
              (GroupMembershipChanged ex_store [''stg'', ''ghost''] [''alice''] [] ex_watcher))"
    by (simp add: ex_GMC)
  have t: "event_Type (deleted_event ex_store ''dev'') = Deleted" by (simp add: deleted_event_def)
  have g: "\<forall>cs. store_Get ex_store ''ghost'' \<noteq> Inr cs"
    by (simp add: store_Get_def ex_store_def dev_def stg_def)
  have k: "knownResources ex_watcher = [(''dev'', ''1'')]" by (simp add: ex_watcher_eq)
  from Deleted_event_object[where st=ex_store and name="''ghost''" and w=ex_watcher
      and names="[''stg'', ''ghost'']" and users="[''alice'']" and groups="[]"]
  have "ConvertResource ex_store ''ghost'' = \<lparr>Name = ''ghost'', Labels = [], ResourceVersion = []\<rparr>"
    and "\<forall>e \<in> set (new_events ex_watcher
              (GroupMembershipChanged ex_store [''stg'', ''ghost''] [''alice''] [] ex_watcher)).
          event_Type e = Deleted \<longrightarrow>
        (\<exists>n \<in> fst ` set (knownResources ex_watcher).
           n \<notin> set [''stg'', ''ghost''] \<and> event_Object e = ClusterSetObject (ConvertResource ex_store n) \<and>
           event_name e = Some n)"
    using g by blast+
  with m t k g show ?thesis by auto
qed

subsection \<open>The passes when every enqueue is accepted\<close>

lemma deletions_loop_all_enqueued:
  assumes "all_enqueued w"
  shows "internalEvents (deletions_loop st names kr w) =
           internalEvents w @ map (deleted_event st) (filter (\<lambda>n. n \<notin> set names) (map fst kr)) \<and>
         (\<forall>m. map_of (knownResources (deletions_loop st names kr w)) m =
               (if m \<in> fst ` set kr \<and> m \<notin> set names then None else map_of (knownResources w) m)) \<and>
         all_enqueued (deletions_loop st names kr w)"
  using assms
proof (induction kr arbitrary: w)
  case Nil
  then show ?case by simp
next
  case (Cons p kr)
  obtain n rv where p: "p = (n, rv)" by (cases p)
  show ?case
  proof (cases "n \<in> set names")
    case True
    have eq: "deletions_loop st names (p # kr) w = deletions_loop st names kr w"
      using True p by (simp add: sets_Has_def)
    show ?thesis unfolding eq using Cons.IH[OF Cons.prems] True p by auto
  next
    case False
    let ?w1 = "w\<lparr>knownResources := AList.delete n (knownResources w)\<rparr>"
    let ?w2 = "consume_outcome (?w1\<lparr>internalEvents := internalEvents ?w1 @ [deleted_event st n]\<rparr>)"
    have a1: "all_enqueued ?w1" using Cons.prems by (simp add: all_enqueued_def)
    then have s: "next_outcome ?w1 = Sent" by (rule next_outcome_all_enqueued)
    have a2: "all_enqueued ?w2"
      by (rule all_enqueued_consume) (use a1 in \<open>simp add: all_enqueued_def\<close>)
    have eq: "deletions_loop st names (p # kr) w = deletions_loop st names kr ?w2"
      using False p s by (simp add: sets_Has_def Let_def deleted_event_def)
    have ev2: "internalEvents ?w2 = internalEvents w @ [deleted_event st n]"
      by (simp add: consume_outcome_def)
    have kn2: "map_of (knownResources ?w2) = (map_of (knownResources w))(n := None)"
      by (simp add: consume_outcome_def delete_conv')
    note IH = Cons.IH[OF a2]
    have e: "internalEvents (deletions_loop st names (p # kr) w) =
           internalEvents w @ map (deleted_event st) (filter (\<lambda>n. n \<notin> set names) (map fst (p # kr)))"
      unfolding eq using IH ev2 False p by simp
    have k: "\<forall>m. map_of (knownResources (deletions_loop st names (p # kr) w)) m =
               (if m \<in> fst ` set (p # kr) \<and> m \<notin> set names then None else map_of (knownResources w) m)"
      unfolding eq using IH kn2 False p by auto
    have q: "all_enqueued (deletions_loop st names (p # kr) w)"
      unfolding eq using IH by simp
    show ?thesis using e k q by blast
  qed
qed

lemma update_events_upd:
  "n \<noteq> m \<Longrightarrow> update_events st (known(n \<mapsto> v)) m = update_events st known m"
  by (simp add: update_events_def split: sum.splits)

lemma updates_loop_all_enqueued:
  assumes "all_enqueued w" and "distinct ns"
  shows "internalEvents (updates_loop st ns w) =
           internalEvents w @ concat (map (update_events st (map_of (knownResources w))) ns) \<and>
         (\<forall>m. map_of (knownResources (updates_loop st ns w)) m =
               (if m \<in> set ns
                then (case store_Get st m of
                        Inr obj \<Rightarrow> Some (ResourceVersion obj)
                      | Inl err \<Rightarrow> map_of (knownResources w) m)
                else map_of (knownResources w) m)) \<and>
         all_enqueued (updates_loop st ns w)"
  using assms
proof (induction ns arbitrary: w)
  case Nil
  then show ?case by simp
next
  case (Cons n ns)
  from Cons.prems have d: "distinct ns" and nn: "n \<notin> set ns" by simp_all
  show ?case
  proof (cases "store_Get st n")
    case (Inl err)
    have eq: "updates_loop st (n # ns) w = updates_loop st ns w" using Inl by simp
    have u: "update_events st (map_of (knownResources w)) n = []"
      using Inl by (simp add: update_events_def)
    show ?thesis unfolding eq using Cons.IH[OF Cons.prems(1) d] u Inl nn by auto
  next
    case (Inr obj)
    show ?thesis
    proof (cases "map_of (knownResources w) n = Some (ResourceVersion obj)")
      case True
      have eq: "updates_loop st (n # ns) w = updates_loop st ns w"
        using Inr True by (simp add: Let_def)
      have u: "update_events st (map_of (knownResources w)) n = []"
        using Inr True by (simp add: update_events_def)
      show ?thesis unfolding eq using Cons.IH[OF Cons.prems(1) d] u Inr True nn by auto
    next
      case False
      let ?ty = "case map_of (knownResources w) n of None \<Rightarrow> Added | Some x \<Rightarrow> Modified"
      let ?ev = "\<lparr>event_Type = ?ty, event_Object = ClusterSetObject obj\<rparr>"
      let ?w1 = "w\<lparr>knownResources := AList.update n (ResourceVersion obj) (knownResources w)\<rparr>"
      let ?w2 = "consume_outcome (?w1\<lparr>internalEvents := internalEvents ?w1 @ [?ev]\<rparr>)"
      have a1: "all_enqueued ?w1" using Cons.prems(1) by (simp add: all_enqueued_def)
      then have s: "next_outcome ?w1 = Sent" by (rule next_outcome_all_enqueued)
      have a2: "all_enqueued ?w2"
        by (rule all_enqueued_consume) (use a1 in \<open>simp add: all_enqueued_def\<close>)
      have eq: "updates_loop st (n # ns) w = updates_loop st ns ?w2"
        using Inr False s by (simp add: Let_def)
      have ev2: "internalEvents ?w2 = internalEvents w @ [?ev]"
        by (simp add: consume_outcome_def)
      have kn2: "map_of (knownResources ?w2) = (map_of (knownResources w))(n \<mapsto> ResourceVersion obj)"
        by (simp add: consume_outcome_def update_conv')
      have u: "update_events st (map_of (knownResources w)) n = [?ev]"
        using Inr False by (auto simp: update_events_def split: option.splits)
      have rest: "map (update_events st (map_of (knownResources ?w2))) ns =
                  map (update_events st (map_of (knownResources w))) ns"
        unfolding kn2 using nn by (intro map_cong refl update_events_upd) auto
      note IH = Cons.IH[OF a2 d]
      have e: "internalEvents (updates_loop st (n # ns) w) =
           internalEvents w @ concat (map (update_events st (map_of (knownResources w))) (n # ns))"
      proof -
        have "internalEvents (updates_loop st ns ?w2) =
                internalEvents ?w2 @ concat (map (update_events st (map_of (knownResources ?w2))) ns)"
          by (rule IH[THEN conjunct1])
        also have "\<dots> = (internalEvents w @ [?ev]) @ concat (map (update_events st (map_of (knownResources w))) ns)"
          by (simp only: ev2 rest)
        finally show ?thesis unfolding eq using u by simp
      qed
      have k: "\<forall>m. map_of (knownResources (updates_loop st (n # ns) w)) m =
               (if m \<in> set (n # ns)
                then (case store_Get st m of
                        Inr obj \<Rightarrow> Some (ResourceVersion obj)
                      | Inl err \<Rightarrow> map_of (knownResources w) m)
                else map_of (knownResources w) m)"
        unfolding eq using IH kn2 Inr nn by (auto split: sum.splits)
      have q: "all_enqueued (updates_loop st (n # ns) w)"
        unfolding eq using IH by simp
      show ?thesis using e k q by blast
    qed
  qed
qed

lemma events_for_concat:
  assumes "distinct ns" and "\<And>m e. m \<in> set ns \<Longrightarrow> e \<in> set (f m) \<Longrightarrow> event_name e = Some m"
  shows "events_for n (concat (map f ns)) = (if n \<in> set ns then f n else [])"
  using assms
proof (induction ns)
  case Nil
  then show ?case by (simp add: events_for_def)
next
  case (Cons m ns)
  have IH: "events_for n (concat (map f ns)) = (if n \<in> set ns then f n else [])"
    using Cons by simp
  have hd: "events_for n (f m) = (if n = m then f m else [])"
  proof (cases "n = m")
    case True
    then show ?thesis using Cons.prems(2)[of m] by (simp add: events_for_def)
  next
    case False
    have "\<forall>e \<in> set (f m). event_name e \<noteq> Some n"
      using Cons.prems(2)[of m] False by auto
    then show ?thesis using False by (simp add: events_for_def filter_empty_conv)
  qed
  have app: "events_for n (concat (map f (m # ns))) = events_for n (f m) @ events_for n (concat (map f ns))"
    by (simp add: events_for_def)
  show ?case unfolding app hd IH using Cons.prems(1) by auto
qed

lemma event_name_update_events:
  "event_name e = Some m" if "e \<in> set (update_events st known m)"
proof (cases "store_Get st m")
  case (Inl err)
  then show ?thesis using that by (simp add: update_events_def)
next
  case (Inr obj)
  then have "Name obj = m" by (simp add: store_Get_Inr)
  moreover have "event_Object e = ClusterSetObject obj"
    using that Inr by (cases "known m") (auto simp: update_events_def split: if_splits)
  ultimately show ?thesis by (simp add: event_name_def)
qed

lemma filter_eq_distinct:
  "distinct xs \<Longrightarrow> filter (\<lambda>m. m = n) xs = (if n \<in> set xs then [n] else [])"
  by (induction xs) auto

lemma distinct_sets_List: "distinct (sets_List s)" "set (sets_List s) = set s"
  by (simp_all add: sets_List_def)

lemma GroupMembershipChanged_all_enqueued:
  assumes acc: "hasAccess users groups w" and enq: "all_enqueued w"
      and dist: "distinct (map fst (knownResources w))"
  shows "events_for n (new_events w (GroupMembershipChanged st names users groups w)) =
           (if n \<in> set names then update_events st (map_of (knownResources w)) n
            else if n \<in> fst ` set (knownResources w) then [deleted_event st n]
            else [])"
    and "map_of (knownResources (GroupMembershipChanged st names users groups w)) n =
           (if n \<in> set names
            then (case store_Get st n of
                    Inr obj \<Rightarrow> Some (ResourceVersion obj)
                  | Inl err \<Rightarrow> map_of (knownResources w) n)
            else None)"
proof -
  let ?kr = "knownResources w"
  let ?w1 = "handleResourceDeletions st names w"
  let ?w2 = "handleResourceUpdates st names ?w1"
  let ?D = "map (deleted_event st) (filter (\<lambda>n. n \<notin> set names) (map fst ?kr))"
  let ?U = "concat (map (update_events st (map_of (knownResources ?w1))) (sets_List names))"
  have gmc: "GroupMembershipChanged st names users groups w = ?w2"
    using acc by (simp add: GroupMembershipChanged_def)
  have d: "internalEvents ?w1 = internalEvents w @ ?D"
    "\<forall>m. map_of (knownResources ?w1) m = (if m \<in> fst ` set ?kr \<and> m \<notin> set names then None else map_of ?kr m)"
    "all_enqueued ?w1"
    using deletions_loop_all_enqueued[OF enq, of st names ?kr]
    by (simp_all add: handleResourceDeletions_def)
  have u: "internalEvents ?w2 = internalEvents ?w1 @ ?U"
    "\<forall>m. map_of (knownResources ?w2) m =
               (if m \<in> set (sets_List names)
                then (case store_Get st m of
                        Inr obj \<Rightarrow> Some (ResourceVersion obj)
                      | Inl err \<Rightarrow> map_of (knownResources ?w1) m)
                else map_of (knownResources ?w1) m)"
    using updates_loop_all_enqueued[OF d(3) distinct_sets_List(1), of st names]
    by (simp_all add: handleResourceUpdates_def)
  have ne: "new_events w ?w2 = ?D @ ?U"
    using d(1) u(1) by (simp add: new_events_def)
  have D: "events_for n ?D = (if n \<in> fst ` set ?kr \<and> n \<notin> set names then [deleted_event st n] else [])"
  proof -
    have "events_for n ?D = map (deleted_event st) (filter (\<lambda>m. m = n) (filter (\<lambda>n. n \<notin> set names) (map fst ?kr)))"
      by (simp add: events_for_def filter_map comp_def event_name_deleted_event)
    also have "\<dots> = map (deleted_event st) (filter (\<lambda>m. m = n \<and> m \<notin> set names) (map fst ?kr))"
      by (simp add: conj_commute)
    also have "\<dots> = (if n \<in> fst ` set ?kr \<and> n \<notin> set names then [deleted_event st n] else [])"
    proof (cases "n \<notin> set names")
      case True
      have "filter (\<lambda>m. m = n) (map fst ?kr) = (if n \<in> set (map fst ?kr) then [n] else [])"
        using dist by (rule filter_eq_distinct)
      moreover have "filter (\<lambda>m. m = n \<and> m \<notin> set names) (map fst ?kr) = filter (\<lambda>m. m = n) (map fst ?kr)"
        using True by (intro filter_cong) auto
      ultimately show ?thesis using True by simp
    next
      case False
      have "filter (\<lambda>m. m = n \<and> m \<notin> set names) (map fst ?kr) = []"
        using False by (auto simp: filter_empty_conv)
      then show ?thesis using False by simp
    qed
    finally show ?thesis .
  qed
  have U: "events_for n ?U = (if n \<in> set names then update_events st (map_of ?kr) n else [])"
  proof -
    have "events_for n ?U = (if n \<in> set (sets_List names) then update_events st (map_of (knownResources ?w1)) n else [])"
      by (rule events_for_concat) (auto simp: distinct_sets_List dest: event_name_update_events)
    moreover have "n \<in> set names \<Longrightarrow> update_events st (map_of (knownResources ?w1)) n = update_events st (map_of ?kr) n"
      using d(2) by (simp add: update_events_def split: sum.splits)
    ultimately show ?thesis by (simp add: distinct_sets_List)
  qed
  have "events_for n (new_events w ?w2) = events_for n ?D @ events_for n ?U"
    unfolding ne by (simp add: events_for_def)
  then show "events_for n (new_events w (GroupMembershipChanged st names users groups w)) =
           (if n \<in> set names then update_events st (map_of (knownResources w)) n
            else if n \<in> fst ` set (knownResources w) then [deleted_event st n]
            else [])"
    unfolding gmc D U by auto
  show "map_of (knownResources (GroupMembershipChanged st names users groups w)) n =
           (if n \<in> set names
            then (case store_Get st n of
                    Inr obj \<Rightarrow> Some (ResourceVersion obj)
                  | Inl err \<Rightarrow> map_of (knownResources w) n)
            else None)"
    unfolding gmc using u(2)[rule_format, of n] d(2)[rule_format, of n]
    by (auto simp: distinct_sets_List map_of_eq_None_iff split: sum.splits)
qed

text \<open>
  The names of \<open>knownResources\<close> are pairwise distinct in a new watcher, and every
  notification keeps them so.
\<close>

lemma deletions_loop_distinct:
  "distinct (map fst (knownResources w)) \<Longrightarrow>
   distinct (map fst (knownResources (deletions_loop st names kr w)))"
proof (induction kr arbitrary: w)
  case Nil
  then show ?case by simp
next
  case (Cons p kr)
  obtain n rv where p: "p = (n, rv)" by (cases p)
  let ?w1 = "w\<lparr>knownResources := AList.delete n (knownResources w)\<rparr>"
  have d1: "distinct (map fst (knownResources ?w1))"
    using Cons.prems by (simp add: distinct_delete)
  show ?case
  proof (cases "sets_Has names n")
    case True
    then show ?thesis using Cons p by simp
  next
    case False
    show ?thesis
    proof (cases "next_outcome ?w1")
      case Sent
      have "distinct (map fst (knownResources (deletions_loop st names kr
              (consume_outcome (?w1\<lparr>internalEvents := internalEvents ?w1 @ [deleted_event st n]\<rparr>)))))"
        by (rule Cons.IH) (use d1 in \<open>simp add: consume_outcome_def\<close>)
      then show ?thesis using False Sent p by (simp add: Let_def deleted_event_def)
    next
      case TimedOut
      then show ?thesis using False p d1
        by (simp add: Let_def handleEventTimeout_def consume_outcome_def)
    next
      case CtxDone
      then show ?thesis using False p d1 by (simp add: Let_def consume_outcome_def)
    qed
  qed
qed

lemma updates_loop_distinct:
  "distinct (map fst (knownResources w)) \<Longrightarrow>
   distinct (map fst (knownResources (updates_loop st ns w)))"
proof (induction ns arbitrary: w)
  case Nil
  then show ?case by simp
next
  case (Cons n ns)
  show ?case
  proof (cases "store_Get st n")
    case (Inl err)
    then show ?thesis using Cons by simp
  next
    case (Inr obj)
    show ?thesis
    proof (cases "map_of (knownResources w) n = Some (ResourceVersion obj)")
      case True
      then show ?thesis using Cons Inr by (simp add: Let_def)
    next
      case False
      let ?ty = "case map_of (knownResources w) n of None \<Rightarrow> Added | Some x \<Rightarrow> Modified"
      let ?ev = "\<lparr>event_Type = ?ty, event_Object = ClusterSetObject obj\<rparr>"
      let ?w1 = "w\<lparr>knownResources := AList.update n (ResourceVersion obj) (knownResources w)\<rparr>"
      have d1: "distinct (map fst (knownResources ?w1))"
        using Cons.prems by (simp add: distinct_update)
      show ?thesis
      proof (cases "next_outcome ?w1")
        case Sent
        have "distinct (map fst (knownResources (updates_loop st ns
                (consume_outcome (?w1\<lparr>internalEvents := internalEvents ?w1 @ [?ev]\<rparr>)))))"
          by (rule Cons.IH) (use d1 in \<open>simp add: consume_outcome_def\<close>)
        then show ?thesis using False Sent Inr by (simp add: Let_def)
      next
        case TimedOut
        then show ?thesis using False Inr d1
          by (simp add: Let_def handleEventTimeout_def consume_outcome_def)
      next
        case CtxDone
        then show ?thesis using False Inr d1 by (simp add: Let_def consume_outcome_def)
      qed
    qed
  qed
qed

lemma GroupMembershipChanged_distinct:
  "distinct (map fst (knownResources w)) \<Longrightarrow>
   distinct (map fst (knownResources (GroupMembershipChanged st names users groups w)))"
  by (simp add: GroupMembershipChanged_def handleResourceDeletions_def handleResourceUpdates_def
        deletions_loop_distinct updates_loop_distinct)

lemma fold_update_distinct:
  "distinct (map fst kr) \<Longrightarrow>
   distinct (map fst (fold (\<lambda>object kr. AList.update (Name object) (ResourceVersion object) kr) objs kr))"
  by (induction objs arbitrary: kr) (simp_all add: distinct_update)

lemma NewModernCacheWatcher_distinct:
  "distinct (map fst (knownResources (NewModernCacheWatcher user groups pc st incl outcomes)))"
  by (simp add: NewModernCacheWatcher_def initializeResources_def fold_update_distinct Let_def
        split: sum.splits)

text \<open>
  Claim C3, as amended: for a watch that participates in a notification, when every
  enqueue on its internal queue is accepted, the new events follow the ones already on
  the queue, and: a known name that is not among the names
  yields exactly one \<open>Deleted\<close> event and is forgotten; a name among the names whose
  fetch succeeds yields exactly one \<open>Added\<close> event when it was not known, exactly one
  \<open>Modified\<close> event when it was known with another resource version, and no event
  when it was known with the same one, and is then known with the current resource
  version; a name among the names whose fetch fails yields no event and stays as it
  was; a name that is neither known nor among the names yields no event.
\<close>

theorem GroupMembershipChanged_events:
  assumes "hasAccess users groups w" and "all_enqueued w"
      and "distinct (map fst (knownResources w))"
  shows
   "internalEvents (GroupMembershipChanged st names users groups w) =
      internalEvents w @ new_events w (GroupMembershipChanged st names users groups w) \<and>
    (map_of (knownResources w) n = Some rv \<and> n \<notin> set names \<longrightarrow>
       events_for n (new_events w (GroupMembershipChanged st names users groups w)) = [deleted_event st n] \<and>
       map_of (knownResources (GroupMembershipChanged st names users groups w)) n = None) \<and>
    (n \<in> set names \<and> store_Get st n = Inr obj \<and> map_of (knownResources w) n = None \<longrightarrow>
       events_for n (new_events w (GroupMembershipChanged st names users groups w)) =
         [\<lparr>event_Type = Added, event_Object = ClusterSetObject obj\<rparr>] \<and>
       map_of (knownResources (GroupMembershipChanged st names users groups w)) n =
         Some (ResourceVersion obj)) \<and>
    (n \<in> set names \<and> store_Get st n = Inr obj \<and> map_of (knownResources w) n = Some rv \<and>
     rv \<noteq> ResourceVersion obj \<longrightarrow>
       events_for n (new_events w (GroupMembershipChanged st names users groups w)) =
         [\<lparr>event_Type = Modified, event_Object = ClusterSetObject obj\<rparr>] \<and>
       map_of (knownResources (GroupMembershipChanged st names users groups w)) n =
         Some (ResourceVersion obj)) \<and>
    (n \<in> set names \<and> store_Get st n = Inr obj \<and>
     map_of (knownResources w) n = Some (ResourceVersion obj) \<longrightarrow>
       events_for n (new_events w (GroupMembershipChanged st names users groups w)) = [] \<and>
       map_of (knownResources (GroupMembershipChanged st names users groups w)) n =
         Some (ResourceVersion obj)) \<and>
    (n \<in> set names \<and> store_Get st n = Inl err \<longrightarrow>
       events_for n (new_events w (GroupMembershipChanged st names users groups w)) = [] \<and>
       map_of (knownResources (GroupMembershipChanged st names users groups w)) n =
         map_of (knownResources w) n) \<and>
    (n \<notin> set names \<and> map_of (knownResources w) n = None \<longrightarrow>
       events_for n (new_events w (GroupMembershipChanged st names users groups w)) = [] \<and>
       map_of (knownResources (GroupMembershipChanged st names users groups w)) n = None)"
proof -
  note ev = GroupMembershipChanged_all_enqueued(1)[OF assms, of n st names]
  note kn = GroupMembershipChanged_all_enqueued(2)[OF assms, of st names n]
  have in_dom: "map_of (knownResources w) n = Some rv \<Longrightarrow> n \<in> fst ` set (knownResources w)"
    by (metis map_of_eq_None_iff option.distinct(1))
  have not_dom: "map_of (knownResources w) n = None \<Longrightarrow> n \<notin> fst ` set (knownResources w)"
    by (simp add: map_of_eq_None_iff)
  have cases: "(map_of (knownResources w) n = Some rv \<and> n \<notin> set names \<longrightarrow>
       events_for n (new_events w (GroupMembershipChanged st names users groups w)) = [deleted_event st n] \<and>
       map_of (knownResources (GroupMembershipChanged st names users groups w)) n = None) \<and>
    (n \<in> set names \<and> store_Get st n = Inr obj \<and> map_of (knownResources w) n = None \<longrightarrow>
       events_for n (new_events w (GroupMembershipChanged st names users groups w)) =
         [\<lparr>event_Type = Added, event_Object = ClusterSetObject obj\<rparr>] \<and>
       map_of (knownResources (GroupMembershipChanged st names users groups w)) n =
         Some (ResourceVersion obj)) \<and>
    (n \<in> set names \<and> store_Get st n = Inr obj \<and> map_of (knownResources w) n = Some rv \<and>
     rv \<noteq> ResourceVersion obj \<longrightarrow>
       events_for n (new_events w (GroupMembershipChanged st names users groups w)) =
         [\<lparr>event_Type = Modified, event_Object = ClusterSetObject obj\<rparr>] \<and>
       map_of (knownResources (GroupMembershipChanged st names users groups w)) n =
         Some (ResourceVersion obj)) \<and>
    (n \<in> set names \<and> store_Get st n = Inr obj \<and>
     map_of (knownResources w) n = Some (ResourceVersion obj) \<longrightarrow>
       events_for n (new_events w (GroupMembershipChanged st names users groups w)) = [] \<and>
       map_of (knownResources (GroupMembershipChanged st names users groups w)) n =
         Some (ResourceVersion obj)) \<and>
    (n \<in> set names \<and> store_Get st n = Inl err \<longrightarrow>
       events_for n (new_events w (GroupMembershipChanged st names users groups w)) = [] \<and>
       map_of (knownResources (GroupMembershipChanged st names users groups w)) n =
         map_of (knownResources w) n) \<and>
    (n \<notin> set names \<and> map_of (knownResources w) n = None \<longrightarrow>
       events_for n (new_events w (GroupMembershipChanged st names users groups w)) = [] \<and>
       map_of (knownResources (GroupMembershipChanged st names users groups w)) n = None)"
    unfolding ev kn using in_dom not_dom by (auto simp: update_events_def)
  show ?thesis
    by (rule conjI[OF GroupMembershipChanged_appends cases])
qed

theorem GroupMembershipChanged_events_witness:
  "hasAccess [''alice''] [] ex_watcher \<and> all_enqueued ex_watcher \<and>
   distinct (map fst (knownResources ex_watcher)) \<and>
   map_of (knownResources ex_watcher) ''dev'' = Some ''1'' \<and> ''dev'' \<notin> set [''stg'', ''ghost''] \<and>
   events_for ''dev'' (new_events ex_watcher
       (GroupMembershipChanged ex_store [''stg'', ''ghost''] [''alice''] [] ex_watcher)) =
     [deleted_event ex_store ''dev''] \<and>
   ''stg'' \<in> set [''stg'', ''ghost''] \<and> store_Get ex_store ''stg'' = Inr stg \<and>
   map_of (knownResources ex_watcher) ''stg'' = None \<and>
   events_for ''stg'' (new_events ex_watcher
       (GroupMembershipChanged ex_store [''stg'', ''ghost''] [''alice''] [] ex_watcher)) =
     [\<lparr>event_Type = Added, event_Object = ClusterSetObject stg\<rparr>]"
proof -
  have a: "all_enqueued ex_watcher" by (simp add: all_enqueued_def ex_watcher_eq)
  have d: "distinct (map fst (knownResources ex_watcher))" by (simp add: ex_watcher_eq)
  have k1: "map_of (knownResources ex_watcher) ''dev'' = Some ''1''" by (simp add: ex_watcher_eq)
  have k2: "map_of (knownResources ex_watcher) ''stg'' = None" by (simp add: ex_watcher_eq)
  have g: "store_Get ex_store ''stg'' = Inr stg"
    by (simp add: store_Get_def ex_store_def dev_def stg_def)
  have n1: "''dev'' \<notin> set [''stg'', ''ghost'']" and n2: "''stg'' \<in> set [''stg'', ''ghost'']" by simp_all
  note t1 = GroupMembershipChanged_events[OF ex_hasAccess a d,
      where n="''dev''" and rv="''1''" and names="[''stg'', ''ghost'']" and st=ex_store,
      THEN conjunct2, THEN conjunct1, rule_format, OF conjI[OF k1 n1], THEN conjunct1]
  note t2 = GroupMembershipChanged_events[OF ex_hasAccess a d,
      where n="''stg''" and obj=stg and names="[''stg'', ''ghost'']" and st=ex_store,
      THEN conjunct2, THEN conjunct2, THEN conjunct1, rule_format, OF conjI[OF n2 conjI[OF g k2]],
      THEN conjunct1]
  show ?thesis
    by (intro conjI ex_hasAccess a d k1 n1 t1 n2 g k2 t2)
qed

text \<open>
  Claim C3 as stated fails twice. The name \<open>ghost\<close> is among the names and was not
  known, but the store has no such resource: no event is enqueued for it. And when the
  enqueue of the \<open>Deleted\<close> event for \<open>dev\<close> times out, \<open>dev\<close> is forgotten without
  any event.
\<close>

theorem GroupMembershipChanged_events_counterexample:
  "hasAccess [''alice''] [] ex_watcher \<and>
   ''ghost'' \<in> set [''stg'', ''ghost''] \<and> map_of (knownResources ex_watcher) ''ghost'' = None \<and>
   events_for ''ghost'' (new_events ex_watcher
       (GroupMembershipChanged ex_store [''stg'', ''ghost''] [''alice''] [] ex_watcher)) = [] \<and>
   map_of (knownResources ex_watcher) ''dev'' = Some ''1'' \<and> ''dev'' \<notin> set [''stg''] \<and>
   events_for ''dev'' (new_events (ex_watcher\<lparr>enqueue_outcomes := [TimedOut]\<rparr>)
       (GroupMembershipChanged ex_store [''stg''] [''alice''] []
          (ex_watcher\<lparr>enqueue_outcomes := [TimedOut]\<rparr>))) = [] \<and>
   map_of (knownResources (GroupMembershipChanged ex_store [''stg''] [''alice''] []
          (ex_watcher\<lparr>enqueue_outcomes := [TimedOut]\<rparr>))) ''dev'' = None"
proof -
  have g: "events_for ''ghost'' (new_events ex_watcher
       (GroupMembershipChanged ex_store [''stg'', ''ghost''] [''alice''] [] ex_watcher)) = []"
    unfolding ex_GMC
    by (simp add: events_for_def event_name_def deleted_event_def ConvertResource_def
          store_Get_def ex_store_def dev_def stg_def)
  have t: "GroupMembershipChanged ex_store [''stg''] [''alice''] []
             (ex_watcher\<lparr>enqueue_outcomes := [TimedOut]\<rparr>) =
           ex_watcher\<lparr>knownResources := [(''stg'', ''7'')],
                      internalEvents := [\<lparr>event_Type = Added, event_Object = ClusterSetObject stg\<rparr>],
                      errors := [''event notification timeout''], removeWatcher_calls := 1\<rparr>"
    by (simp add: ex_watcher_eq GroupMembershipChanged_def hasAccess_def sets_Has_def
        handleResourceDeletions_def handleResourceUpdates_def sets_List_def next_outcome_def
        consume_outcome_def handleEventTimeout_def store_Get_def
        ex_store_def dev_def stg_def Let_def)
  have d: "events_for ''dev'' (new_events (ex_watcher\<lparr>enqueue_outcomes := [TimedOut]\<rparr>)
       (GroupMembershipChanged ex_store [''stg''] [''alice''] []
          (ex_watcher\<lparr>enqueue_outcomes := [TimedOut]\<rparr>))) = []"
    unfolding t by (simp add: ex_watcher_eq new_events_def events_for_def event_name_def stg_def)
  have k: "map_of (knownResources (GroupMembershipChanged ex_store [''stg''] [''alice''] []
          (ex_watcher\<lparr>enqueue_outcomes := [TimedOut]\<rparr>))) ''dev'' = None"
    unfolding t by simp
  have k0: "map_of (knownResources ex_watcher) ''ghost'' = None"
       "map_of (knownResources ex_watcher) ''dev'' = Some ''1''"
    by (simp_all add: ex_watcher_eq)
  show ?thesis using ex_hasAccess g d k k0 by simp
qed

section \<open>Fan-out after a rebuild\<close>

text \<open>
  The notification that the fan-out sends is built from the index as it is after the
  rebuild: its users and groups are the subjects that have an entry then, its names the
  resources of those entries.
\<close>

lemma notification_users_fold:
  "fold (\<lambda>(user, resources) (names, users). (sets_Union names resources, sets_Insert user users)) m (ns, us)
     = (a, b) \<Longrightarrow> set b = fst ` set m \<union> set us \<and> set a = \<Union> (set ` snd ` set m) \<union> set ns"
proof (induction m arbitrary: ns us)
  case Nil
  then show ?case by simp
next
  case (Cons p m)
  obtain k v where p: "p = (k, v)" by (cases p)
  from Cons.prems p have
    "fold (\<lambda>(user, resources) (names, users). (sets_Union names resources, sets_Insert user users)) m
       (sets_Union ns v, sets_Insert k us) = (a, b)"
    by simp
  from Cons.IH[OF this] show ?case
    using p by (auto simp: set_sets_Union sets_Insert_def)
qed

lemma notification_sets:
  "notification pc = (names, users, groups) \<Longrightarrow>
     set users = fst ` set (userPermissions pc) \<and>
     set groups = fst ` set (groupPermissions pc) \<and>
     set names = \<Union> (set ` snd ` set (userPermissions pc)) \<union> \<Union> (set ` snd ` set (groupPermissions pc))"
proof -
  assume n: "notification pc = (names, users, groups)"
  obtain a b where u: "fold (\<lambda>(user, resources) (names, users). (sets_Union names resources, sets_Insert user users))
                         (userPermissions pc) ([], []) = (a, b)"
    by (cases "fold (\<lambda>(user, resources) (names, users). (sets_Union names resources, sets_Insert user users))
                         (userPermissions pc) ([], [])")
  obtain c d where g: "fold (\<lambda>(group, resources) (names, groups). (sets_Union names resources, sets_Insert group groups))
                         (groupPermissions pc) (a, []) = (c, d)"
    by (cases "fold (\<lambda>(group, resources) (names, groups). (sets_Union names resources, sets_Insert group groups))
                         (groupPermissions pc) (a, [])")
  from n u g have r: "names = c" "users = b" "groups = d"
    by (simp_all add: notification_def)
  from notification_users_fold[OF u] notification_users_fold[OF g] show ?thesis
    unfolding r by auto
qed


lemma notify_loop_calls:
  "d \<in> set (fst (notify_loop st pc ws)) \<Longrightarrow> snd d = notification pc \<and> fst d \<in> set ws"
proof (induction ws arbitrary: d)
  case Nil
  then show ?case by simp
next
  case (Cons w ws)
  obtain names users groups where n: "notification pc = (names, users, groups)"
    by (cases "notification pc")
  obtain calls r where l: "notify_loop st pc ws = (calls, r)"
    by (cases "notify_loop st pc ws")
  from Cons.prems n l have "d = (w, names, users, groups) \<or> d \<in> set calls"
    by (auto simp: Let_def split: if_splits)
  then show ?case
  proof
    assume "d = (w, names, users, groups)"
    then show ?thesis using n by simp
  next
    assume "d \<in> set calls"
    then have "d \<in> set (fst (notify_loop st pc ws))" using l by simp
    from Cons.IH[OF this] show ?thesis by simp
  qed
qed

lemma deliveries_current_subjects:
  assumes "(watcher, names, users, groups) \<in> set (deliveries st c)"
  shows "watcher \<in> set (watchers c)"
    and "u \<in> set users \<longleftrightarrow> map_of (userPermissions (permissionCache c)) u \<noteq> None"
    and "g \<in> set groups \<longleftrightarrow> map_of (groupPermissions (permissionCache c)) g \<noteq> None"
proof -
  from assms have d: "(names, users, groups) = notification (permissionCache c)"
    and w: "watcher \<in> set (watchers c)"
    using notify_loop_calls[of "(watcher, names, users, groups)" st "permissionCache c" "watchers c"]
    by (simp_all add: deliveries_def)
  show "watcher \<in> set (watchers c)" by (rule w)
  from notification_sets[OF d[symmetric]]
  show "u \<in> set users \<longleftrightarrow> map_of (userPermissions (permissionCache c)) u \<noteq> None"
    and "g \<in> set groups \<longleftrightarrow> map_of (groupPermissions (permissionCache c)) g \<noteq> None"
    by (simp_all add: map_of_eq_None_iff)
qed

lemma ex_rebuild_revoked:
  "rebuildPermissionCache ex_extractor ex_rbac_revoked ex_store ex_index =
     \<lparr>userPermissions = [], groupPermissions = [(''ops'', [''stg''])]\<rparr>"
  by (simp add: rebuildPermissionCache_def processClusterRoleBinding_def ex_rbac_revoked_def
        ex_extractor_def ex_index_def process_subject_def grant_def sets_Union_def sets_Insert_def)

lemma ex_notification:
  "notification \<lparr>userPermissions = [], groupPermissions = [(''ops'', [''stg''])]\<rparr> = ([''stg''], [], [''ops''])"
  by (simp add: notification_def sets_Union_def sets_Insert_def)

lemma ex_ignored: "GroupMembershipChanged ex_store [''stg''] [] [''ops''] ex_watcher = ex_watcher"
  by (simp add: GroupMembershipChanged_def hasAccess_def sets_Has_def sets_HasAny_def ex_watcher_eq)

lemma ex_notify_loop:
  "notify_loop ex_store \<lparr>userPermissions = [], groupPermissions = [(''ops'', [''stg''])]\<rparr> [ex_watcher]
     = ([(ex_watcher, [''stg''], [], [''ops''])], Some [ex_watcher])"
  by (simp add: ex_notification ex_ignored)

text \<open>A watcher whose enqueue times out blocks the fan-out.\<close>

lemma ex_fanout_blocks:
  "notifyWatchers ex_store
     \<lparr>permissionCache = ex_index,
      watchers = [ex_watcher\<lparr>enqueue_outcomes := [TimedOut]\<rparr>, ex_watcher]\<rparr> = None \<and>
   map fst (deliveries ex_store
     \<lparr>permissionCache = ex_index,
      watchers = [ex_watcher\<lparr>enqueue_outcomes := [TimedOut]\<rparr>, ex_watcher]\<rparr>) =
     [ex_watcher\<lparr>enqueue_outcomes := [TimedOut]\<rparr>]"
proof -
  have n: "notification ex_index = ([''stg'', ''dev'', ''ghost''], [''alice''], [''ops''])"
    by (simp add: notification_def ex_index_def sets_Union_def sets_Insert_def)
  have t: "removeWatcher_calls (GroupMembershipChanged ex_store [''stg'', ''dev'', ''ghost''] [''alice''] [''ops'']
             (ex_watcher\<lparr>enqueue_outcomes := [TimedOut]\<rparr>)) = 1"
    by (simp add: ex_watcher_eq GroupMembershipChanged_def hasAccess_def sets_Has_def
        handleResourceDeletions_def handleResourceUpdates_def sets_List_def next_outcome_def
        consume_outcome_def handleEventTimeout_def store_Get_def
        ex_store_def dev_def stg_def Let_def)
  have z: "removeWatcher_calls (ex_watcher\<lparr>enqueue_outcomes := [TimedOut]\<rparr>) = 0"
    by (simp add: ex_watcher_eq)
  show ?thesis
    by (simp add: notifyWatchers_def deliveries_def n t z)
qed

text \<open>
  Claim C2 says that a subject that had an entry in the index before a rebuild and has
  none after it is named in a notification of the fan-out that follows, so that its
  watch can flush. \<open>notifyWatchers\<close> does not do that; its body says
  ``simplified for this example'', while the \<open>synchronize\<close> of the cache that it replaces
  notifies the deleted users and groups. Here the index gives \<open>alice\<close> the cluster sets
  \<open>dev\<close> and \<open>ghost\<close>, her watch is the one registered watcher and knows \<open>dev\<close>, and
  her binding is deleted. After the rebuild \<open>alice\<close> has no entry; the fan-out makes one
  call, with no user and the group \<open>ops\<close>; the handler returns with the watcher as it
  was, still knowing \<open>dev\<close> and with no event queued.
\<close>

theorem removed_subject_not_notified:
  "map_of (userPermissions (permissionCache ex_cache)) ''alice'' = Some [''dev'', ''ghost''] \<and>
   watchers ex_cache = [ex_watcher] \<and> user_Name ex_watcher = ''alice'' \<and>
   knownResources ex_watcher = [(''dev'', ''1'')] \<and>
   map_of (userPermissions
     (rebuildPermissionCache ex_extractor ex_rbac_revoked ex_store (permissionCache ex_cache))) ''alice'' = None \<and>
   deliveries ex_store (ex_cache\<lparr>permissionCache :=
       rebuildPermissionCache ex_extractor ex_rbac_revoked ex_store (permissionCache ex_cache)\<rparr>) =
     [(ex_watcher, [''stg''], [], [''ops''])] \<and>
   onClusterRoleBindingDelete ex_extractor ex_rbac_revoked ex_store ex_cache =
     Some \<lparr>permissionCache = \<lparr>userPermissions = [], groupPermissions = [(''ops'', [''stg''])]\<rparr>,
           watchers = [ex_watcher]\<rparr>"
proof -
  have pc: "permissionCache ex_cache = ex_index" and ws: "watchers ex_cache = [ex_watcher]"
    by (simp_all add: ex_cache_def)
  have a: "map_of (userPermissions (permissionCache ex_cache)) ''alice'' = Some [''dev'', ''ghost'']"
    by (simp add: pc ex_index_def)
  have w: "user_Name ex_watcher = ''alice''" "knownResources ex_watcher = [(''dev'', ''1'')]"
    by (simp_all add: ex_watcher_eq)
  have r: "map_of (userPermissions
     (rebuildPermissionCache ex_extractor ex_rbac_revoked ex_store (permissionCache ex_cache))) ''alice'' = None"
    by (simp add: pc ex_rebuild_revoked)
  have d: "deliveries ex_store (ex_cache\<lparr>permissionCache :=
       rebuildPermissionCache ex_extractor ex_rbac_revoked ex_store (permissionCache ex_cache)\<rparr>) =
     [(ex_watcher, [''stg''], [], [''ops''])]"
    unfolding deliveries_def pc
    by (simp add: ws ex_rebuild_revoked ex_notify_loop del: notify_loop.simps)
  have h: "onClusterRoleBindingDelete ex_extractor ex_rbac_revoked ex_store ex_cache =
     Some \<lparr>permissionCache = \<lparr>userPermissions = [], groupPermissions = [(''ops'', [''stg''])]\<rparr>,
           watchers = [ex_watcher]\<rparr>"
    unfolding onClusterRoleBindingDelete_def notifyWatchers_def pc
    by (simp add: ws ex_rebuild_revoked ex_notify_loop ex_cache_def del: notify_loop.simps)
  show ?thesis by (intro conjI a ws w r d h)
qed

section \<open>Stopping a watch\<close>








text \<open>
  A notification touches neither the \<open>started\<close> flag nor the event loops nor the
  output stream.
\<close>

lemma handleEventTimeout_loop_fields:
  "started (handleEventTimeout w) = started w \<and> live_loops (handleEventTimeout w) = live_loops w \<and>
   resultChan_closes (handleEventTimeout w) = resultChan_closes w"
  by (simp add: handleEventTimeout_def Let_def)

lemma deletions_loop_loop_fields:
  "started (deletions_loop st names kr w) = started w \<and>
   live_loops (deletions_loop st names kr w) = live_loops w \<and>
   resultChan_closes (deletions_loop st names kr w) = resultChan_closes w"
proof (induction kr arbitrary: w)
  case Nil
  then show ?case by simp
next
  case (Cons p kr)
  obtain n rv where p: "p = (n, rv)" by (cases p)
  let ?w1 = "w\<lparr>knownResources := AList.delete n (knownResources w)\<rparr>"
  show ?case
  proof (cases "sets_Has names n")
    case True
    then show ?thesis using Cons.IH[of w] p by simp
  next
    case False
    show ?thesis
    proof (cases "next_outcome ?w1")
      case Sent
      then show ?thesis
        using False p
          Cons.IH[of "consume_outcome (?w1\<lparr>internalEvents := internalEvents ?w1 @ [deleted_event st n]\<rparr>)"]
        by (simp add: Let_def deleted_event_def consume_outcome_def)
    next
      case TimedOut
      then show ?thesis using False p
        by (simp add: Let_def handleEventTimeout_loop_fields consume_outcome_def)
    next
      case CtxDone
      then show ?thesis using False p by (simp add: Let_def consume_outcome_def)
    qed
  qed
qed

lemma updates_loop_loop_fields:
  "started (updates_loop st ns w) = started w \<and>
   live_loops (updates_loop st ns w) = live_loops w \<and>
   resultChan_closes (updates_loop st ns w) = resultChan_closes w"
proof (induction ns arbitrary: w)
  case Nil
  then show ?case by simp
next
  case (Cons n ns)
  show ?case
  proof (cases "store_Get st n")
    case (Inl err)
    then show ?thesis using Cons.IH[of w] by simp
  next
    case (Inr obj)
    show ?thesis
    proof (cases "map_of (knownResources w) n = Some (ResourceVersion obj)")
      case True
      then show ?thesis using Cons.IH[of w] Inr by (simp add: Let_def)
    next
      case False
      let ?ty = "case map_of (knownResources w) n of None \<Rightarrow> Added | Some x \<Rightarrow> Modified"
      let ?ev = "\<lparr>event_Type = ?ty, event_Object = ClusterSetObject obj\<rparr>"
      let ?w1 = "w\<lparr>knownResources := AList.update n (ResourceVersion obj) (knownResources w)\<rparr>"
      show ?thesis
      proof (cases "next_outcome ?w1")
        case Sent
        then show ?thesis
          using False Inr
            Cons.IH[of "consume_outcome (?w1\<lparr>internalEvents := internalEvents ?w1 @ [?ev]\<rparr>)"]
          by (simp add: Let_def consume_outcome_def)
      next
        case TimedOut
        then show ?thesis using False Inr
          by (simp add: Let_def handleEventTimeout_loop_fields consume_outcome_def)
      next
        case CtxDone
        then show ?thesis using False Inr by (simp add: Let_def consume_outcome_def)
      qed
    qed
  qed
qed


lemma started_once_Start: "started_once w \<Longrightarrow> Start w = w"
  by (simp add: started_once_def Start_def)

lemma started_once_GroupMembershipChanged:
  "started_once (GroupMembershipChanged st names users groups w) = started_once w"
  by (simp add: started_once_def GroupMembershipChanged_def handleResourceDeletions_def
        handleResourceUpdates_def deletions_loop_loop_fields updates_loop_loop_fields)




section \<open>Moving a resource between cluster sets\<close>

lemma set_update_subset:
  "(k', v') \<in> set (AList.update k v al) \<Longrightarrow> (k', v') \<in> set al \<or> (k' = k \<and> v' = v)"
  by (induction al) (auto split: if_splits)








lemma own_sets_New: "own_sets (NewClusterSetResourceMapper rt, h)"
  by (simp add: own_sets_def NewClusterSetResourceMapper_def)








end
